theory Spec2Isabelle
  imports Main
begin

section \<open>Text\<close>

text \<open>
  The panel works on JavaScript strings. A \<^typ>\<open>char\<close> stands for one UTF-16 code unit
  below 256, so a \<^typ>\<open>string\<close> is a text over that range. The line separator the code
  splits on is the line feed.
\<close>

definition nl :: char where
  "nl = CHR 0x0A"

text \<open>
  The regular expression class \<^verbatim>\<open>\s\<close> on code units below 256: TAB, LF, VT, FF, CR,
  SPACE and the no-break space, by their code.
\<close>

definition is_space :: "char \<Rightarrow> bool" where
  "is_space c \<longleftrightarrow> (of_char c :: nat) \<in> set [0x09, 0x0A, 0x0B, 0x0C, 0x0D, 0x20, 0xA0]"

text \<open>
  \<^verbatim>\<open>content.replace(/\s+/g, " ")\<close>: scanning from the left, every match of \<^verbatim>\<open>\s+\<close>
  (a whitespace character with all the whitespace that follows it) is replaced by one
  space, every other character is copied.
\<close>

function replaceWs :: "string \<Rightarrow> string" where
  "replaceWs [] = []"
| "replaceWs (c # cs) =
     (if is_space c then CHR 0x20 # replaceWs (dropWhile is_space cs)
      else c # replaceWs cs)"
  by pat_completeness auto
termination
  by (relation "measure length") (auto simp: length_dropWhile_le less_Suc_eq_le)

text \<open>
  \<^verbatim>\<open>toLowerCase()\<close> on code units below 256: the letters A to Z and the Latin-1 capitals
  (0xC0 to 0xDE without the multiplication sign 0xD7) move up by 32, everything else stays.
\<close>

definition lower_char :: "char \<Rightarrow> char" where
  "lower_char c =
     (let n = (of_char c :: nat)
      in if (65 \<le> n \<and> n \<le> 90) \<or> (192 \<le> n \<and> n \<le> 222 \<and> n \<noteq> 215)
         then char_of (n + 32) else c)"

definition toLowerCase :: "string \<Rightarrow> string" where
  "toLowerCase s = map lower_char s"

section \<open>Preprocessing\<close>

text \<open>
  The text handed to the line diff, as \<^verbatim>\<open>_getHtmlForWebview\<close> computes it for each file
  from the two configuration flags (lines 166 to 179).
\<close>

definition normalize :: "bool \<Rightarrow> bool \<Rightarrow> string \<Rightarrow> string" where
  "normalize ignoreWhitespace ignoreCase fileContent =
     (if ignoreWhitespace then
        (let fileNormalized = replaceWs fileContent
         in if ignoreCase then toLowerCase fileNormalized else fileNormalized)
      else
        (if ignoreCase then toLowerCase fileContent else fileContent))"

text \<open>
  The specification's wording of whitespace collapsing: cut the text into its maximal runs
  of whitespace and of non-whitespace characters, and replace each whitespace run by one
  space.
\<close>

function runs :: "('a \<Rightarrow> bool) \<Rightarrow> 'a list \<Rightarrow> 'a list list" where
  "runs P [] = []"
| "runs P (c # cs) =
     (c # takeWhile (\<lambda>d. P d = P c) cs) # runs P (dropWhile (\<lambda>d. P d = P c) cs)"
  by pat_completeness auto
termination
  by (relation "measure (\<lambda>(P, cs). length cs)") (auto simp: length_dropWhile_le less_Suc_eq_le)

definition collapse_run :: "string \<Rightarrow> string" where
  "collapse_run r = (if r \<noteq> [] \<and> is_space (hd r) then [CHR 0x20] else r)"

definition collapse_runs :: "string \<Rightarrow> string" where
  "collapse_runs s = concat (map collapse_run (runs is_space s))"

definition spec_normalize :: "bool \<Rightarrow> bool \<Rightarrow> string \<Rightarrow> string" where
  "spec_normalize ignoreWhitespace ignoreCase s =
     (let t = (if ignoreWhitespace then collapse_runs s else s)
      in if ignoreCase then toLowerCase t else t)"

section \<open>Preprocessing over any alphabet\<close>

text \<open>
  The preprocessing takes three things from the JavaScript runtime: the class \<^verbatim>\<open>\s\<close> of the
  regular expression, the space it inserts, and \<^verbatim>\<open>String.prototype.toLowerCase\<close>. With
  these as parameters \<open>isSpace\<close>, \<open>space\<close> and \<open>lower\<close> the same computation is
  written over any alphabet, that of all UTF-16 code units included, where \<open>lower\<close> need
  not work character by character. \<open>replaceWs\<close>, \<open>normalize\<close>, \<open>collapse_runs\<close> and
  \<open>spec_normalize\<close> above are the instance on code units below 256.
\<close>

function replaceWs_with :: "('a \<Rightarrow> bool) \<Rightarrow> 'a \<Rightarrow> 'a list \<Rightarrow> 'a list" where
  "replaceWs_with isSpace space [] = []"
| "replaceWs_with isSpace space (c # cs) =
     (if isSpace c then space # replaceWs_with isSpace space (dropWhile isSpace cs)
      else c # replaceWs_with isSpace space cs)"
  by pat_completeness auto
termination
  by (relation "measure (\<lambda>(isSpace, space, cs). length cs)")
     (auto simp: length_dropWhile_le less_Suc_eq_le)

definition normalize_with ::
  "('a \<Rightarrow> bool) \<Rightarrow> 'a \<Rightarrow> ('a list \<Rightarrow> 'a list) \<Rightarrow> bool \<Rightarrow> bool \<Rightarrow> 'a list \<Rightarrow> 'a list" where
  "normalize_with isSpace space lower ignoreWhitespace ignoreCase fileContent =
     (if ignoreWhitespace then
        (let fileNormalized = replaceWs_with isSpace space fileContent
         in if ignoreCase then lower fileNormalized else fileNormalized)
      else
        (if ignoreCase then lower fileContent else fileContent))"

definition collapse_run_with :: "('a \<Rightarrow> bool) \<Rightarrow> 'a \<Rightarrow> 'a list \<Rightarrow> 'a list" where
  "collapse_run_with isSpace space r = (if r \<noteq> [] \<and> isSpace (hd r) then [space] else r)"

definition collapse_runs_with :: "('a \<Rightarrow> bool) \<Rightarrow> 'a \<Rightarrow> 'a list \<Rightarrow> 'a list" where
  "collapse_runs_with isSpace space s = concat (map (collapse_run_with isSpace space) (runs isSpace s))"

definition spec_normalize_with ::
  "('a \<Rightarrow> bool) \<Rightarrow> 'a \<Rightarrow> ('a list \<Rightarrow> 'a list) \<Rightarrow> bool \<Rightarrow> bool \<Rightarrow> 'a list \<Rightarrow> 'a list" where
  "spec_normalize_with isSpace space lower ignoreWhitespace ignoreCase s =
     (let t = (if ignoreWhitespace then collapse_runs_with isSpace space s else s)
      in if ignoreCase then lower t else t)"

section \<open>Edit scripts\<close>

text \<open>
  One element of the result of \<^verbatim>\<open>diff.diffLines\<close> or \<^verbatim>\<open>diff.diffWordsWithSpace\<close>: the text
  and the two flags the panel reads. The diff library is not part of the repository; its
  results enter the model as parameters.
\<close>

record change =
  "value" :: string
  added :: bool
  removed :: bool

text \<open>An entry of \<^verbatim>\<open>processedDiff\<close>: a modified block, or an element of the line diff.\<close>

datatype part = Modified (oldValue: string) (newValue: string) | Part change

text \<open>
  The loop of \<^verbatim>\<open>findModifiedBlocks\<close> (lines 187 to 214), with its cursor \<open>i\<close> and the
  array \<^verbatim>\<open>processedDiff\<close> it pushes to.
\<close>

function findModifiedBlocksLoop :: "change list \<Rightarrow> nat \<Rightarrow> part list \<Rightarrow> part list" where
  "findModifiedBlocksLoop lineDiffResult i processedDiff =
     (if i < length lineDiffResult then
        (let current = lineDiffResult ! i
         in if removed current \<and> i + 1 < length lineDiffResult \<and> added (lineDiffResult ! (i + 1))
            then findModifiedBlocksLoop lineDiffResult (i + 1 + 1)
                   (processedDiff @ [Modified (value current) (value (lineDiffResult ! (i + 1)))])
            else findModifiedBlocksLoop lineDiffResult (i + 1) (processedDiff @ [Part current]))
      else processedDiff)"
  by pat_completeness auto
termination
  by (relation "measure (\<lambda>(lineDiffResult, i, processedDiff). length lineDiffResult - i)") auto

declare findModifiedBlocksLoop.simps [simp del]

definition findModifiedBlocks :: "change list \<Rightarrow> part list" where
  "findModifiedBlocks lineDiffResult = findModifiedBlocksLoop lineDiffResult 0 []"

text \<open>
  The specification's wording of modification detection: one greedy pass from the left that
  merges a removed element with the added element right after it.
\<close>

fun greedyPass :: "change list \<Rightarrow> part list" where
  "greedyPass [] = []"
| "greedyPass [c] = [Part c]"
| "greedyPass (c # d # ops) =
     (if removed c \<and> added d then Modified (value c) (value d) # greedyPass ops
      else Part c # greedyPass (d # ops))"

section \<open>Lines\<close>

text \<open>\<^verbatim>\<open>s.split("\n")\<close>: the pieces between line feeds; never an empty array.\<close>

fun splitLines :: "string \<Rightarrow> string list" where
  "splitLines [] = [[]]"
| "splitLines (c # cs) =
     (if c = nl then [] # splitLines cs
      else (case splitLines cs of [] \<Rightarrow> [[c]] | l # ls \<Rightarrow> (c # l) # ls))"

text \<open>\<^verbatim>\<open>if (lines[lines.length - 1] === "") lines.pop()\<close>\<close>

definition popEmpty :: "string list \<Rightarrow> string list" where
  "popEmpty ls = (if ls \<noteq> [] \<and> last ls = [] then butlast ls else ls)"

definition linesOf :: "string \<Rightarrow> string list" where
  "linesOf v = popEmpty (splitLines v)"

text \<open>\<^verbatim>\<open>i < lines.length ? lines[i] : ""\<close>\<close>

definition lineAt :: "string list \<Rightarrow> nat \<Rightarrow> string" where
  "lineAt ls i = (if i < length ls then ls ! i else [])"

text \<open>\<^verbatim>\<open>lines.join("\n")\<close>\<close>

fun join_nl :: "string list \<Rightarrow> string" where
  "join_nl [] = []"
| "join_nl [l] = l"
| "join_nl (l # m # ls) = l @ nl # join_nl (m # ls)"

section \<open>Word-level highlighting\<close>

text \<open>
  \<^verbatim>\<open>_processLineWithWordDiff\<close> returns HTML text made of three kinds of fragments: escaped
  text, escaped text in a \<^verbatim>\<open>word-added\<close> span, escaped text in a \<^verbatim>\<open>word-removed\<close> span.
  The model keeps the fragments apart; \<open>html_of_spans\<close> is the string the method returns.
\<close>

datatype span = Text string | WordAdded string | WordRemoved string

fun span_text :: "span \<Rightarrow> string" where
  "span_text (Text v) = v"
| "span_text (WordAdded v) = v"
| "span_text (WordRemoved v) = v"

definition replaceChar :: "char \<Rightarrow> string \<Rightarrow> string \<Rightarrow> string" where
  "replaceChar c r s = concat (map (\<lambda>x. if x = c then r else [x]) s)"

definition escapeHtml :: "string \<Rightarrow> string" where
  "escapeHtml text =
     replaceChar (CHR 0x27) ''&#039;''
       (replaceChar (CHR 0x22) ''&quot;''
         (replaceChar CHR ''>'' ''&gt;''
           (replaceChar CHR ''<'' ''&lt;''
             (replaceChar CHR ''&'' ''&amp;'' text))))"

fun html_of_span :: "span \<Rightarrow> string" where
  "html_of_span (Text v) = escapeHtml v"
| "html_of_span (WordAdded v) =
     ''<span class='' @ [CHR 0x22] @ ''word-diff word-added'' @ [CHR 0x22] @ ''>'' @ escapeHtml v @ ''</span>''"
| "html_of_span (WordRemoved v) =
     ''<span class='' @ [CHR 0x22] @ ''word-diff word-removed'' @ [CHR 0x22] @ ''>'' @ escapeHtml v @ ''</span>''"

definition html_of_spans :: "span list \<Rightarrow> string" where
  "html_of_spans spans = concat (map html_of_span spans)"

text \<open>What the body of \<^verbatim>\<open>wordDiff.forEach\<close> appends to \<^verbatim>\<open>result\<close> for one element.\<close>

definition wordSpan :: "bool \<Rightarrow> bool \<Rightarrow> change \<Rightarrow> span list" where
  "wordSpan isFile1 isFile2 part =
     (if added part \<and> isFile2 then [WordAdded (value part)]
      else if removed part \<and> isFile1 then [WordRemoved (value part)]
      else if \<not> added part \<and> \<not> removed part then [Text (value part)]
      else [])"

text \<open>
  \<^verbatim>\<open>_processLineWithWordDiff\<close> (lines 653 to 695). \<open>diffWordsWithSpace\<close> is the word diff of
  the library; the colour argument is never read and is left out.
\<close>

definition processLineWithWordDiff ::
  "(string \<Rightarrow> string \<Rightarrow> change list) \<Rightarrow> string \<Rightarrow> string \<Rightarrow> bool \<Rightarrow> bool \<Rightarrow> span list" where
  "processLineWithWordDiff diffWordsWithSpace line1 line2 isFile1 isFile2 =
     (if line1 = [] then [Text line2]
      else if line2 = [] then [Text line1]
      else foldl (\<lambda>result part. result @ wordSpan isFile1 isFile2 part) []
             (diffWordsWithSpace line1 line2))"

section \<open>Row emission\<close>

text \<open>
  Each \<^verbatim>\<open><div class="line ...">\<close> appended to \<^verbatim>\<open>file1Html\<close> or \<^verbatim>\<open>file2Html\<close> is a row: the
  \<^verbatim>\<open>empty-line\<close> div without content, or a line with its class, its number and its content.
\<close>

datatype line_class = ClassModified | ClassAdded | ClassRemoved | ClassNone

datatype row = EmptyLine | Line line_class nat "span list"

record emit_state =
  file1Html :: "row list"
  file2Html :: "row list"
  lineNumber1 :: nat
  lineNumber2 :: nat

text \<open>The \<^verbatim>\<open>for\<close> loop over the line pairs of a modified block (lines 240 to 264).\<close>

function modifiedLoop ::
  "(string \<Rightarrow> string \<Rightarrow> change list) \<Rightarrow> string list \<Rightarrow> string list \<Rightarrow> nat \<Rightarrow> nat \<Rightarrow>
   emit_state \<Rightarrow> emit_state" where
  "modifiedLoop wd oldLines newLines maxLines i st =
     (if i < maxLines then
        (let oldLine = lineAt oldLines i;
             newLine = lineAt newLines i
         in modifiedLoop wd oldLines newLines maxLines (i + 1)
              (st\<lparr>file1Html := file1Html st @
                       [Line ClassModified (lineNumber1 st)
                          (processLineWithWordDiff wd oldLine newLine True False)],
                   lineNumber1 := lineNumber1 st + 1,
                   file2Html := file2Html st @
                       [Line ClassModified (lineNumber2 st)
                          (processLineWithWordDiff wd oldLine newLine False True)],
                   lineNumber2 := lineNumber2 st + 1\<rparr>))
      else st)"
  by pat_completeness auto
termination
  by (relation "measure (\<lambda>(wd, oldLines, newLines, maxLines, i, st). maxLines - i)") auto

declare modifiedLoop.simps [simp del]

text \<open>The bodies of the three \<^verbatim>\<open>lines.forEach\<close> calls (lines 273, 294 and 315).\<close>

definition addedLine :: "(string \<Rightarrow> string \<Rightarrow> change list) \<Rightarrow> emit_state \<Rightarrow> string \<Rightarrow> emit_state" where
  "addedLine wd st line =
     st\<lparr>file1Html := file1Html st @ [EmptyLine],
        file2Html := file2Html st @
          [Line ClassAdded (lineNumber2 st) (processLineWithWordDiff wd [] line False True)],
        lineNumber2 := lineNumber2 st + 1\<rparr>"

definition removedLine :: "(string \<Rightarrow> string \<Rightarrow> change list) \<Rightarrow> emit_state \<Rightarrow> string \<Rightarrow> emit_state" where
  "removedLine wd st line =
     st\<lparr>file1Html := file1Html st @
          [Line ClassRemoved (lineNumber1 st) (processLineWithWordDiff wd line [] True False)],
        lineNumber1 := lineNumber1 st + 1,
        file2Html := file2Html st @ [EmptyLine]\<rparr>"

definition unchangedLine :: "emit_state \<Rightarrow> string \<Rightarrow> emit_state" where
  "unchangedLine st line =
     st\<lparr>file1Html := file1Html st @ [Line ClassNone (lineNumber1 st) [Text line]],
        lineNumber1 := lineNumber1 st + 1,
        file2Html := file2Html st @ [Line ClassNone (lineNumber2 st) [Text line]],
        lineNumber2 := lineNumber2 st + 1\<rparr>"

text \<open>The body of \<^verbatim>\<open>processedDiff.forEach\<close> (lines 224 to 330).\<close>

definition emitPart :: "(string \<Rightarrow> string \<Rightarrow> change list) \<Rightarrow> emit_state \<Rightarrow> part \<Rightarrow> emit_state" where
  "emitPart wd st p =
     (case p of
        Modified old new \<Rightarrow>
          (let oldLines = linesOf old;
               newLines = linesOf new;
               maxLines = max (length oldLines) (length newLines)
           in modifiedLoop wd oldLines newLines maxLines 0 st)
      | Part c \<Rightarrow>
          (if added c then foldl (addedLine wd) st (linesOf (value c))
           else if removed c then foldl (removedLine wd) st (linesOf (value c))
           else foldl unchangedLine st (linesOf (value c))))"

definition initialState :: emit_state where
  "initialState = \<lparr>file1Html = [], file2Html = [], lineNumber1 = 1, lineNumber2 = 1\<rparr>"

text \<open>The rows built from a line diff result: modification detection, then row emission.\<close>

definition alignRows :: "(string \<Rightarrow> string \<Rightarrow> change list) \<Rightarrow> change list \<Rightarrow> emit_state" where
  "alignRows wd lineDiffResult = foldl (emitPart wd) initialState (findModifiedBlocks lineDiffResult)"

text \<open>
  \<^verbatim>\<open>_getHtmlForWebview\<close> up to the rows: both file contents are normalized, the line diff
  \<open>diffLines\<close> of the library runs on the results, and the rows are built from its answer.
\<close>

definition getHtmlForWebview ::
  "(string \<Rightarrow> string \<Rightarrow> change list) \<Rightarrow> (string \<Rightarrow> string \<Rightarrow> change list) \<Rightarrow>
   bool \<Rightarrow> bool \<Rightarrow> string \<Rightarrow> string \<Rightarrow> emit_state" where
  "getHtmlForWebview diffLines wd ignoreWhitespace ignoreCase file1Content file2Content =
     alignRows wd
       (diffLines (normalize ignoreWhitespace ignoreCase file1Content)
                  (normalize ignoreWhitespace ignoreCase file2Content))"

section \<open>Reading the rows\<close>

fun is_placeholder :: "row \<Rightarrow> bool" where
  "is_placeholder EmptyLine = True"
| "is_placeholder (Line k n spans) = False"

fun row_class :: "row \<Rightarrow> line_class option" where
  "row_class EmptyLine = None"
| "row_class (Line k n spans) = Some k"

fun row_spans :: "row \<Rightarrow> span list" where
  "row_spans EmptyLine = []"
| "row_spans (Line k n spans) = spans"

definition row_text :: "row \<Rightarrow> string" where
  "row_text r = concat (map span_text (row_spans r))"

definition content_texts :: "row list \<Rightarrow> string list" where
  "content_texts rows = map row_text (filter (\<lambda>r. \<not> is_placeholder r) rows)"

section \<open>The contract of the diff primitives\<close>

text \<open>
  An element carries at most one of the two flags; the elements that are not added spell the
  first input, the elements that are not removed spell the second.
\<close>

definition well_tagged :: "change \<Rightarrow> bool" where
  "well_tagged c = (\<not> (added c \<and> removed c))"

definition old_values :: "change list \<Rightarrow> string list" where
  "old_values ops = map value (filter (\<lambda>c. \<not> added c) ops)"

definition new_values :: "change list \<Rightarrow> string list" where
  "new_values ops = map value (filter (\<lambda>c. \<not> removed c) ops)"

definition old_side :: "change list \<Rightarrow> string" where
  "old_side ops = concat (old_values ops)"

definition new_side :: "change list \<Rightarrow> string" where
  "new_side ops = concat (new_values ops)"

definition diff_contract :: "change list \<Rightarrow> string \<Rightarrow> string \<Rightarrow> bool" where
  "diff_contract ops a b = (list_all well_tagged ops \<and> old_side ops = a \<and> new_side ops = b)"

text \<open>
  Two primitives that meet the contract, for concrete runs: a line diff that answers with
  a given edit script, and a word diff that reports the whole old line removed and the
  whole new line added (what the library answers for two different one-word lines).
\<close>

definition fixedDiff :: "change list \<Rightarrow> string \<Rightarrow> string \<Rightarrow> change list" where
  "fixedDiff ops a b = ops"

definition wholeLineDiff :: "string \<Rightarrow> string \<Rightarrow> change list" where
  "wholeLineDiff a b =
     [\<lparr>value = a, added = False, removed = True\<rparr>, \<lparr>value = b, added = True, removed = False\<rparr>]"

text \<open>
  The library cuts a text into lines that keep their line feed, so in an edit script every
  value of one side but that side's last ends with a line feed.
\<close>

fun line_granular :: "string list \<Rightarrow> bool" where
  "line_granular [] = True"
| "line_granular [v] = True"
| "line_granular (v # w # vs) = ((v = [] \<or> last v = nl) \<and> line_granular (w # vs))"

text \<open>A text without its final line feed, and a text closed by a line feed.\<close>

definition chomp :: "string \<Rightarrow> string" where
  "chomp d = (if d \<noteq> [] \<and> last d = nl then butlast d else d)"

definition terminated :: "string \<Rightarrow> string" where
  "terminated v = (if v = [] \<or> last v = nl then v else v @ [nl])"

text \<open>
  A modified block whose two sides have equally many lines, where at each index both lines
  are empty or both are not.
\<close>

definition block_paired :: "part \<Rightarrow> bool" where
  "block_paired p =
     (case p of
        Modified old new \<Rightarrow> list_all2 (\<lambda>a b. (a = []) = (b = [])) (linesOf old) (linesOf new)
      | Part c \<Rightarrow> True)"

text \<open>The span an element of the word diff becomes on the left and on the right.\<close>

definition leftSpan :: "change \<Rightarrow> span" where
  "leftSpan c = (if removed c then WordRemoved (value c) else Text (value c))"

definition rightSpan :: "change \<Rightarrow> span" where
  "rightSpan c = (if added c then WordAdded (value c) else Text (value c))"

text \<open>The four shapes of a pair of rows at one index of the two columns.\<close>

fun aligned :: "row \<Rightarrow> row \<Rightarrow> bool" where
  "aligned (Line k n spans) (Line k' n' spans') = (k = k' \<and> (k = ClassNone \<or> k = ClassModified))"
| "aligned (Line k n spans) EmptyLine = (k = ClassRemoved)"
| "aligned EmptyLine (Line k n spans) = (k = ClassAdded)"
| "aligned EmptyLine EmptyLine = False"

text \<open>The lines a part of the processed diff contributes to document 1 and to document 2.\<close>

definition part_old_lines :: "part \<Rightarrow> string list" where
  "part_old_lines p =
     (case p of
        Modified old new \<Rightarrow> linesOf old
      | Part c \<Rightarrow> if added c then [] else linesOf (value c))"

definition part_new_lines :: "part \<Rightarrow> string list" where
  "part_new_lines p =
     (case p of
        Modified old new \<Rightarrow> linesOf new
      | Part c \<Rightarrow> if added c then linesOf (value c) else if removed c then [] else linesOf (value c))"

section \<open>Properties of the preprocessing\<close>

lemma of_char_lower_char:
  "(of_char (lower_char c) :: nat) =
     (let n = of_char c in
      if (65 \<le> n \<and> n \<le> 90) \<or> (192 \<le> n \<and> n \<le> 222 \<and> n \<noteq> 215) then n + 32 else n)"
  by (auto simp: lower_char_def Let_def)

lemma is_space_lower_char: "is_space (lower_char c) = is_space c"
  by (auto simp: is_space_def of_char_lower_char Let_def)

lemma lower_char_idem: "lower_char (lower_char c) = lower_char c"
proof -
  have "(of_char (lower_char (lower_char c)) :: nat) = of_char (lower_char c)"
    by (auto simp: of_char_lower_char Let_def)
  then show ?thesis by (rule of_char_eqI)
qed

lemma lower_char_space: "lower_char (CHR 0x20) = CHR 0x20"
  by (simp add: lower_char_def)

lemma toLowerCase_idem: "toLowerCase (toLowerCase s) = toLowerCase s"
  by (simp add: toLowerCase_def lower_char_idem)

lemma dropWhile_space_lower:
  "dropWhile is_space (map lower_char cs) = map lower_char (dropWhile is_space cs)"
  by (induction cs) (simp_all add: is_space_lower_char)

lemma replaceWs_toLowerCase: "replaceWs (toLowerCase s) = toLowerCase (replaceWs s)"
  unfolding toLowerCase_def
  by (induction s rule: replaceWs.induct)
     (simp_all add: is_space_lower_char dropWhile_space_lower lower_char_space)

lemma runs_concat: "concat (runs P s) = s"
  by (induction P s rule: runs.induct) simp_all

lemma runs_homogeneous:
  "r \<in> set (runs P s) \<Longrightarrow> r \<noteq> [] \<and> (\<forall>x\<in>set r. P x = P (hd r))"
proof (induction P s rule: runs.induct)
  case (1 P)
  then show ?case by simp
next
  case (2 P c cs)
  define Q where "Q = (\<lambda>d. P d = P c)"
  have runs_eq: "runs P (c # cs) = (c # takeWhile Q cs) # runs P (dropWhile Q cs)"
    by (simp add: Q_def)
  have tw: "\<forall>x\<in>set (takeWhile Q cs). Q x"
    by (blast dest: set_takeWhileD)
  have "Q c" by (simp add: Q_def)
  from 2(2) have "r = c # takeWhile Q cs \<or> r \<in> set (runs P (dropWhile Q cs))"
    unfolding runs_eq by simp
  then show ?case
  proof
    assume r: "r = c # takeWhile Q cs"
    then have "r \<noteq> []" and hd: "hd r = c" by simp_all
    from tw \<open>Q c\<close> have "\<forall>x\<in>set r. Q x" by (simp add: r)
    then have "\<forall>x\<in>set r. P x = P c" unfolding Q_def .
    then have "\<forall>x\<in>set r. P x = P (hd r)" unfolding hd .
    with \<open>r \<noteq> []\<close> show ?thesis by (rule conjI)
  next
    assume "r \<in> set (runs P (dropWhile Q cs))"
    then show ?thesis unfolding Q_def by (rule 2(1))
  qed
qed

lemma hd_runs: "s \<noteq> [] \<Longrightarrow> hd (hd (runs P s)) = hd s"
  by (cases s) simp_all

lemma runs_maximal:
  "Suc i < length (runs P s) \<Longrightarrow> P (hd (runs P s ! i)) \<noteq> P (hd (runs P s ! Suc i))"
proof (induction P s arbitrary: i rule: runs.induct)
  case (1 P)
  then show ?case by simp
next
  case (2 P c cs)
  define Q where "Q = (\<lambda>d. P d = P c)"
  define rest where "rest = dropWhile Q cs"
  have runs_eq: "runs P (c # cs) = (c # takeWhile Q cs) # runs P rest"
    by (simp add: Q_def rest_def)
  show ?case
  proof (cases i)
    case 0
    from 2(2) have rne: "runs P rest \<noteq> []"
      unfolding runs_eq 0 by auto
    then have ne: "rest \<noteq> []" by (cases rest) simp_all
    then have "\<not> Q (hd rest)" unfolding rest_def by (metis hd_dropWhile)
    then have "P c \<noteq> P (hd rest)" unfolding Q_def by (rule not_sym)
    moreover have "hd (runs P (c # cs) ! 0) = c" unfolding runs_eq by simp
    moreover have "hd (runs P (c # cs) ! Suc 0) = hd rest"
    proof -
      have "runs P (c # cs) ! Suc 0 = hd (runs P rest)"
        unfolding runs_eq using rne by (simp add: hd_conv_nth)
      then show ?thesis using ne by (simp add: hd_runs)
    qed
    ultimately show ?thesis unfolding 0 by simp
  next
    case (Suc j)
    from 2(2) have "Suc j < length (runs P rest)"
      unfolding runs_eq Suc by simp
    then have "P (hd (runs P rest ! j)) \<noteq> P (hd (runs P rest ! Suc j))"
      unfolding rest_def Q_def by (rule 2(1))
    moreover have "runs P (c # cs) ! i = runs P rest ! j"
      and "runs P (c # cs) ! Suc i = runs P rest ! Suc j"
      unfolding runs_eq Suc by simp_all
    ultimately show ?thesis by simp
  qed
qed

lemma replaceWs_instance: "replaceWs s = replaceWs_with is_space (CHR 0x20) s"
  by (induction s rule: replaceWs.induct) simp_all

lemma normalize_instance:
  "normalize ws ic s = normalize_with is_space (CHR 0x20) toLowerCase ws ic s"
  by (simp add: normalize_def normalize_with_def replaceWs_instance)

lemma collapse_runs_instance: "collapse_runs s = collapse_runs_with is_space (CHR 0x20) s"
proof -
  have "collapse_run = collapse_run_with is_space (CHR 0x20)"
    by (rule ext) (simp add: collapse_run_def collapse_run_with_def)
  then show ?thesis by (simp add: collapse_runs_def collapse_runs_with_def)
qed

lemma spec_normalize_instance:
  "spec_normalize ws ic s = spec_normalize_with is_space (CHR 0x20) toLowerCase ws ic s"
  by (simp add: spec_normalize_def spec_normalize_with_def collapse_runs_instance)

lemma dropWhile_replaceWs_with:
  "t = [] \<or> \<not> isSpace (hd t) \<Longrightarrow>
   dropWhile isSpace (replaceWs_with isSpace space t) = replaceWs_with isSpace space t"
  by (cases t) auto

lemma replaceWs_with_idem:
  "replaceWs_with isSpace space (replaceWs_with isSpace space s) = replaceWs_with isSpace space s"
proof (induction isSpace space s rule: replaceWs_with.induct)
  case (1 isSpace space)
  show ?case by simp
next
  case (2 isSpace space c cs)
  show ?case
  proof (cases "isSpace c")
    case True
    note sp = this
    let ?d = "dropWhile isSpace cs"
    have ih: "replaceWs_with isSpace space (replaceWs_with isSpace space ?d) =
              replaceWs_with isSpace space ?d"
      using 2(1) sp by simp
    have "?d = [] \<or> \<not> isSpace (hd ?d)"
      by (metis hd_dropWhile)
    then have dw: "dropWhile isSpace (replaceWs_with isSpace space ?d) = replaceWs_with isSpace space ?d"
      by (rule dropWhile_replaceWs_with)
    show ?thesis
    proof (cases "isSpace space")
      case True
      with sp ih dw show ?thesis by simp
    next
      case False
      with sp ih show ?thesis by simp
    qed
  next
    case False
    with 2 show ?thesis by simp
  qed
qed

lemma replaceWs_with_nonspace_prefix:
  "\<forall>x\<in>set xs. \<not> isSpace x \<Longrightarrow>
   replaceWs_with isSpace space (xs @ ys) = xs @ replaceWs_with isSpace space ys"
  by (induction xs) auto

lemma replaceWs_with_collapse_runs:
  "replaceWs_with isSpace space s = collapse_runs_with isSpace space s"
proof (induction s rule: length_induct)
  case (1 s)
  show ?case
  proof (cases s)
    case Nil
    then show ?thesis by (simp add: collapse_runs_with_def)
  next
    case (Cons c cs)
    show ?thesis
    proof (cases "isSpace c")
      case True
      then have eq: "(\<lambda>d. isSpace d = isSpace c) = isSpace" by auto
      have "length (dropWhile isSpace cs) < length s"
        using Cons by (simp add: length_dropWhile_le less_Suc_eq_le)
      with 1 have "replaceWs_with isSpace space (dropWhile isSpace cs) =
                   collapse_runs_with isSpace space (dropWhile isSpace cs)"
        by blast
      with True Cons eq show ?thesis
        by (simp add: collapse_runs_with_def collapse_run_with_def)
    next
      case False
      define Q where "Q = (\<lambda>d. isSpace d = isSpace c)"
      have ns: "\<forall>x\<in>set (takeWhile Q cs). \<not> isSpace x"
        using False by (auto simp: Q_def dest: set_takeWhileD)
      have "length (dropWhile Q cs) < length s"
        using Cons by (simp add: length_dropWhile_le less_Suc_eq_le)
      with 1 have ih: "replaceWs_with isSpace space (dropWhile Q cs) =
                       collapse_runs_with isSpace space (dropWhile Q cs)"
        by blast
      have "replaceWs_with isSpace space cs =
            replaceWs_with isSpace space (takeWhile Q cs @ dropWhile Q cs)" by simp
      also have "\<dots> = takeWhile Q cs @ replaceWs_with isSpace space (dropWhile Q cs)"
        using ns by (rule replaceWs_with_nonspace_prefix)
      finally have r: "replaceWs_with isSpace space cs =
                       takeWhile Q cs @ collapse_runs_with isSpace space (dropWhile Q cs)"
        using ih by simp
      have "runs isSpace (c # cs) = (c # takeWhile Q cs) # runs isSpace (dropWhile Q cs)"
        by (simp add: Q_def)
      then have "collapse_runs_with isSpace space (c # cs) =
                 (c # takeWhile Q cs) @ collapse_runs_with isSpace space (dropWhile Q cs)"
        using False by (simp add: collapse_runs_with_def collapse_run_with_def)
      with r False Cons show ?thesis by simp
    qed
  qed
qed

lemma normalize_with_idempotent:
  assumes "ic \<Longrightarrow> lower (lower (if ws then replaceWs_with isSpace space s else s)) =
                   lower (if ws then replaceWs_with isSpace space s else s)"
    and "ic \<Longrightarrow> ws \<Longrightarrow>
           replaceWs_with isSpace space (lower (replaceWs_with isSpace space s)) =
             lower (replaceWs_with isSpace space s)"
  shows "normalize_with isSpace space lower ws ic (normalize_with isSpace space lower ws ic s) =
         normalize_with isSpace space lower ws ic s"
  using assms by (cases ws; cases ic) (simp_all add: normalize_with_def Let_def replaceWs_with_idem)

lemma toLowerCase_codes:
  "length (toLowerCase t) = length t \<and>
   (\<forall>i<length t. (of_char (toLowerCase t ! i) :: nat) =
      (if (65 \<le> (of_char (t ! i) :: nat) \<and> (of_char (t ! i) :: nat) \<le> 90) \<or>
          (192 \<le> (of_char (t ! i) :: nat) \<and> (of_char (t ! i) :: nat) \<le> 222 \<and>
           (of_char (t ! i) :: nat) \<noteq> 215)
       then of_char (t ! i) + 32 else of_char (t ! i)))"
  by (simp add: toLowerCase_def of_char_lower_char Let_def)

lemma normalize_with_spec:
  "normalize_with isSpace space lower ws ic s = spec_normalize_with isSpace space lower ws ic s"
  by (simp add: normalize_with_def spec_normalize_with_def replaceWs_with_collapse_runs)

lemma toLowerCase_keeps_collapsed:
  "replaceWs_with is_space (CHR 0x20) t = t \<Longrightarrow>
   replaceWs_with is_space (CHR 0x20) (toLowerCase t) = toLowerCase t"
  using replaceWs_toLowerCase [of t] by (simp add: replaceWs_instance)

text \<open>
  C7. Normalization is whitespace collapsing, when \<open>ignoreWhitespace\<close> is set, followed by
  lower-casing of the whole result, when \<open>ignoreCase\<close> is set: the code's four branches
  compute the specification's two steps in that order, over any alphabet and on code units
  below 256. Collapsing replaces each maximal run of whitespace characters by one space
  (\<open>runs_concat\<close>, \<open>runs_homogeneous\<close> and \<open>runs_maximal\<close> say that \<open>runs\<close> cuts a text
  into its maximal runs), and the line feed is a whitespace character. Lower-casing on code
  units below 256 keeps the length and moves exactly the codes of the capital letters (65
  to 90, and 192 to 222 without 215) up by 32.
\<close>

theorem normalize_collapses_then_lowers:
  "normalize_with isSpace space lower ws ic s = spec_normalize_with isSpace space lower ws ic s \<and>
   normalize ws ic t = spec_normalize ws ic t \<and>
   is_space nl \<and>
   length (toLowerCase t) = length t \<and>
   (\<forall>i<length t. (of_char (toLowerCase t ! i) :: nat) =
      (if (65 \<le> (of_char (t ! i) :: nat) \<and> (of_char (t ! i) :: nat) \<le> 90) \<or>
          (192 \<le> (of_char (t ! i) :: nat) \<and> (of_char (t ! i) :: nat) \<le> 222 \<and>
           (of_char (t ! i) :: nat) \<noteq> 215)
       then of_char (t ! i) + 32 else of_char (t ! i)))"
proof -
  have "normalize ws ic t = spec_normalize ws ic t"
    by (simp add: normalize_instance spec_normalize_instance normalize_with_spec)
  moreover have "is_space nl" by (simp add: is_space_def nl_def)
  ultimately show ?thesis
    using normalize_with_spec [of isSpace space lower ws ic s] toLowerCase_codes [of t]
    by blast
qed

theorem normalize_collapses_then_lowers_witness:
  "normalize True True ''Hello,  \<newline> World'' = ''hello, world'' \<and>
   (of_char (toLowerCase ''Hello'' ! 0) :: nat) = 104"
proof -
  have v: "spec_normalize True True ''Hello,  \<newline> World'' = ''hello, world''"
    by code_simp
  note t = normalize_collapses_then_lowers [where ws = True and ic = True and t = "''Hello,  \<newline> World''",
      THEN conjunct2, THEN conjunct1]
  note u = normalize_collapses_then_lowers [where t = "''Hello''", THEN conjunct2, THEN conjunct2, THEN conjunct2,
      THEN conjunct2, rule_format, of 0]
  from t v have "normalize True True ''Hello,  \<newline> World'' = ''hello, world''"
    by simp
  moreover from u have "(of_char (toLowerCase ''Hello'' ! 0) :: nat) = 104"
    by simp
  ultimately show ?thesis by simp
qed

text \<open>
  C9. Normalization is idempotent: normalizing an already normalized text with the same
  options changes nothing. Over any alphabet and any whitespace class this holds without
  condition when \<open>ignoreCase\<close> is off; when it is on, it holds for every lower-casing that
  is idempotent and keeps a text with collapsed whitespace collapsed, two properties of
  \<^verbatim>\<open>toLowerCase\<close> (that lower-casing commutes with collapsing is not used). On code units
  below 256 it holds without condition.
\<close>

theorem normalize_idempotent:
  "((ic \<longrightarrow> (\<forall>t. lower (lower t) = lower t) \<and>
           (\<forall>t. replaceWs_with isSpace space t = t \<longrightarrow>
                replaceWs_with isSpace space (lower t) = lower t)) \<longrightarrow>
      normalize_with isSpace space lower ws ic (normalize_with isSpace space lower ws ic s) =
        normalize_with isSpace space lower ws ic s) \<and>
   normalize ws ic (normalize ws ic u) = normalize ws ic u"
proof (intro conjI impI)
  assume h: "ic \<longrightarrow> (\<forall>t. lower (lower t) = lower t) \<and>
           (\<forall>t. replaceWs_with isSpace space t = t \<longrightarrow>
                replaceWs_with isSpace space (lower t) = lower t)"
  show "normalize_with isSpace space lower ws ic (normalize_with isSpace space lower ws ic s) =
        normalize_with isSpace space lower ws ic s"
  proof (rule normalize_with_idempotent)
    assume ic
    with h show "lower (lower (if ws then replaceWs_with isSpace space s else s)) =
                 lower (if ws then replaceWs_with isSpace space s else s)"
      by blast
  next
    assume ic
    with h have "\<forall>t. replaceWs_with isSpace space t = t \<longrightarrow>
                replaceWs_with isSpace space (lower t) = lower t" by blast
    then show "replaceWs_with isSpace space (lower (replaceWs_with isSpace space s)) =
               lower (replaceWs_with isSpace space s)"
      using replaceWs_with_idem [of isSpace space s] by blast
  qed
next
  show "normalize ws ic (normalize ws ic u) = normalize ws ic u"
    unfolding normalize_instance
    by (rule normalize_with_idempotent)
       (simp_all add: toLowerCase_idem toLowerCase_keeps_collapsed replaceWs_with_idem)
qed

theorem normalize_idempotent_witness:
  "normalize_with is_space (CHR 0x20) toLowerCase True True
     (normalize_with is_space (CHR 0x20) toLowerCase True True ''Hello,  \<newline> World'') =
   normalize_with is_space (CHR 0x20) toLowerCase True True ''Hello,  \<newline> World''"
proof -
  have h: "True \<longrightarrow> (\<forall>t. toLowerCase (toLowerCase t) = toLowerCase t) \<and>
           (\<forall>t. replaceWs_with is_space (CHR 0x20) t = t \<longrightarrow>
                replaceWs_with is_space (CHR 0x20) (toLowerCase t) = toLowerCase t)"
    by (simp add: toLowerCase_idem toLowerCase_keeps_collapsed)
  from normalize_idempotent [where ic = True and lower = toLowerCase and isSpace = is_space
      and space = "CHR 0x20" and ws = True and s = "''Hello,  \<newline> World''"] h
  show ?thesis by blast
qed

section \<open>Modification detection\<close>

lemma findModifiedBlocksLoop_greedy:
  "findModifiedBlocksLoop ops i acc = acc @ greedyPass (drop i ops)"
proof (induction ops i acc rule: findModifiedBlocksLoop.induct)
  case (1 ops i acc)
  show ?case
  proof (cases "i < length ops")
    case False
    then show ?thesis by (subst findModifiedBlocksLoop.simps) simp
  next
    case True
    note lt = this
    have d1: "drop i ops = ops ! i # drop (Suc i) ops"
      using lt by (simp add: Cons_nth_drop_Suc)
    show ?thesis
    proof (cases "Suc i < length ops")
      case False
      then have "drop (Suc i) ops = []" by simp
      with lt False d1 1(2) show ?thesis
        by (subst findModifiedBlocksLoop.simps) (simp add: Let_def)
    next
      case True
      have d2: "drop (Suc i) ops = ops ! Suc i # drop (Suc (Suc i)) ops"
        using True by (simp add: Cons_nth_drop_Suc)
      show ?thesis
      proof (cases "removed (ops ! i) \<and> added (ops ! Suc i)")
        case True
        with lt \<open>Suc i < length ops\<close> 1(1) d1 d2 show ?thesis
          by (subst findModifiedBlocksLoop.simps) (simp add: Let_def)
      next
        case False
        with lt \<open>Suc i < length ops\<close> 1(2) d1 d2 show ?thesis
          by (subst findModifiedBlocksLoop.simps) (auto simp add: Let_def)
      qed
    qed
  qed
qed

lemma findModifiedBlocks_eq_greedyPass: "findModifiedBlocks ops = greedyPass ops"
  by (simp add: findModifiedBlocks_def findModifiedBlocksLoop_greedy)

lemma greedyPass_append:
  "\<not> added c \<Longrightarrow> greedyPass (pre @ c # rest) = greedyPass pre @ greedyPass (c # rest)"
  by (induction pre rule: greedyPass.induct) simp_all

lemma greedyPass_Cons_not_removed:
  "\<not> removed c \<Longrightarrow> greedyPass (c # rest) = Part c # greedyPass rest"
  by (cases rest) simp_all

lemma greedyPass_Modified_origin:
  "Modified x y \<in> set (greedyPass ops) \<Longrightarrow>
     \<exists>i. Suc i < length ops \<and> removed (ops ! i) \<and> added (ops ! Suc i) \<and>
         x = value (ops ! i) \<and> y = value (ops ! Suc i)"
proof (induction ops rule: greedyPass.induct)
  case 1
  then show ?case by simp
next
  case (2 c)
  then show ?case by simp
next
  case (3 c d ops)
  show ?case
  proof (cases "removed c \<and> added d")
    case True
    show ?thesis
    proof (cases "Modified x y = Modified (value c) (value d)")
      case True
      with \<open>removed c \<and> added d\<close> have
        "Suc 0 < length (c # d # ops) \<and> removed ((c # d # ops) ! 0) \<and> added ((c # d # ops) ! Suc 0) \<and>
         x = value ((c # d # ops) ! 0) \<and> y = value ((c # d # ops) ! Suc 0)" by simp
      then show ?thesis by blast
    next
      case False
      with True 3 obtain i where "Suc i < length ops \<and> removed (ops ! i) \<and> added (ops ! Suc i) \<and>
         x = value (ops ! i) \<and> y = value (ops ! Suc i)" by auto
      then have "Suc (Suc (Suc i)) < length (c # d # ops) \<and> removed ((c # d # ops) ! Suc (Suc i)) \<and>
         added ((c # d # ops) ! Suc (Suc (Suc i))) \<and>
         x = value ((c # d # ops) ! Suc (Suc i)) \<and> y = value ((c # d # ops) ! Suc (Suc (Suc i)))" by simp
      then show ?thesis by blast
    qed
  next
    case False
    with 3 obtain i where "Suc i < length (d # ops) \<and> removed ((d # ops) ! i) \<and> added ((d # ops) ! Suc i) \<and>
         x = value ((d # ops) ! i) \<and> y = value ((d # ops) ! Suc i)" by auto
    then have "Suc (Suc i) < length (c # d # ops) \<and> removed ((c # d # ops) ! Suc i) \<and>
         added ((c # d # ops) ! Suc (Suc i)) \<and>
         x = value ((c # d # ops) ! Suc i) \<and> y = value ((c # d # ops) ! Suc (Suc i))" by simp
    then show ?thesis by blast
  qed
qed

text \<open>
  C3. Modification detection is one greedy pass from the left: the loop with its cursor
  computes \<open>greedyPass\<close>, which merges a removed element with the added element right
  after it and passes every other element on unchanged. A removed element, an unchanged
  element and an added element in a row come out as three independent entries, whatever
  stands before and after them, and every modified block of the result stems from a
  removed element with an added element immediately after it.
\<close>

theorem findModifiedBlocks_single_greedy_pass:
  "findModifiedBlocks ops = greedyPass ops \<and>
   (removed r \<and> \<not> added r \<and> \<not> added u \<and> \<not> removed u \<and> added a \<and> \<not> removed a \<longrightarrow>
      findModifiedBlocks (pre @ [r, u, a] @ post) =
        findModifiedBlocks pre @ [Part r, Part u, Part a] @ findModifiedBlocks post) \<and>
   (\<forall>x y. Modified x y \<in> set (findModifiedBlocks ops) \<longrightarrow>
      (\<exists>i. Suc i < length ops \<and> removed (ops ! i) \<and> added (ops ! Suc i) \<and>
           x = value (ops ! i) \<and> y = value (ops ! Suc i)))"
proof (intro conjI impI allI)
  show "findModifiedBlocks ops = greedyPass ops"
    by (rule findModifiedBlocks_eq_greedyPass)
next
  assume h: "removed r \<and> \<not> added r \<and> \<not> added u \<and> \<not> removed u \<and> added a \<and> \<not> removed a"
  have "\<not> added r" using h by simp
  then have "greedyPass (pre @ r # u # a # post) = greedyPass pre @ greedyPass (r # u # a # post)"
    by (rule greedyPass_append)
  also have "greedyPass (r # u # a # post) = Part r # Part u # Part a # greedyPass post"
    using h by (simp add: greedyPass_Cons_not_removed)
  finally show "findModifiedBlocks (pre @ [r, u, a] @ post) =
        findModifiedBlocks pre @ [Part r, Part u, Part a] @ findModifiedBlocks post"
    by (simp add: findModifiedBlocks_eq_greedyPass)
next
  fix x y
  assume "Modified x y \<in> set (findModifiedBlocks ops)"
  then show "\<exists>i. Suc i < length ops \<and> removed (ops ! i) \<and> added (ops ! Suc i) \<and>
           x = value (ops ! i) \<and> y = value (ops ! Suc i)"
    by (simp add: findModifiedBlocks_eq_greedyPass greedyPass_Modified_origin)
qed

theorem findModifiedBlocks_single_greedy_pass_witness:
  "findModifiedBlocks
     [\<lparr>value = ''x'', added = False, removed = True\<rparr>,
      \<lparr>value = ''u'', added = False, removed = False\<rparr>,
      \<lparr>value = ''y'', added = True, removed = False\<rparr>,
      \<lparr>value = ''p'', added = False, removed = True\<rparr>,
      \<lparr>value = ''q'', added = True, removed = False\<rparr>] =
     [Part \<lparr>value = ''x'', added = False, removed = True\<rparr>,
      Part \<lparr>value = ''u'', added = False, removed = False\<rparr>,
      Part \<lparr>value = ''y'', added = True, removed = False\<rparr>,
      Modified ''p'' ''q'']"
  using findModifiedBlocks_single_greedy_pass
    [of "[\<lparr>value = ''p'', added = False, removed = True\<rparr>, \<lparr>value = ''q'', added = True, removed = False\<rparr>]"
        "\<lparr>value = ''x'', added = False, removed = True\<rparr>"
        "\<lparr>value = ''u'', added = False, removed = False\<rparr>"
        "\<lparr>value = ''y'', added = True, removed = False\<rparr>"
        "[]"
        "[\<lparr>value = ''p'', added = False, removed = True\<rparr>, \<lparr>value = ''q'', added = True, removed = False\<rparr>]"]
  by (simp add: findModifiedBlocks_eq_greedyPass)

section \<open>Properties of the word-level highlighting\<close>

lemma processLine_empty_old [simp]:
  "processLineWithWordDiff wd [] line2 isFile1 isFile2 = [Text line2]"
  by (simp add: processLineWithWordDiff_def)

lemma processLine_empty_new [simp]:
  "processLineWithWordDiff wd line1 [] isFile1 isFile2 = [Text line1]"
  by (simp add: processLineWithWordDiff_def)

lemma foldl_wordSpan:
  "foldl (\<lambda>result part. result @ wordSpan isFile1 isFile2 part) acc ps =
     acc @ concat (map (wordSpan isFile1 isFile2) ps)"
  by (induction ps arbitrary: acc) simp_all

lemma processLine_general:
  "line1 \<noteq> [] \<Longrightarrow> line2 \<noteq> [] \<Longrightarrow>
   processLineWithWordDiff wd line1 line2 isFile1 isFile2 =
     concat (map (wordSpan isFile1 isFile2) (wd line1 line2))"
  by (simp add: processLineWithWordDiff_def foldl_wordSpan)

lemma wordSpan_left:
  "list_all well_tagged ps \<Longrightarrow>
   concat (map (wordSpan True False) ps) = map leftSpan (filter (\<lambda>c. \<not> added c) ps)"
  by (induction ps) (auto simp: wordSpan_def leftSpan_def well_tagged_def)

lemma wordSpan_right:
  "list_all well_tagged ps \<Longrightarrow>
   concat (map (wordSpan False True) ps) = map rightSpan (filter (\<lambda>c. \<not> removed c) ps)"
  by (induction ps) (auto simp: wordSpan_def rightSpan_def well_tagged_def)

lemma span_text_leftSpan: "span_text (leftSpan c) = value c"
  by (simp add: leftSpan_def)

lemma span_text_rightSpan: "span_text (rightSpan c) = value c"
  by (simp add: rightSpan_def)

lemma left_text:
  assumes "line1 \<noteq> []" "line2 \<noteq> []" "list_all well_tagged (wd line1 line2)"
  shows "concat (map span_text (processLineWithWordDiff wd line1 line2 True False)) =
           old_side (wd line1 line2)"
  using assms
  by (simp add: processLine_general wordSpan_left old_side_def old_values_def comp_def
        span_text_leftSpan)

lemma right_text:
  assumes "line1 \<noteq> []" "line2 \<noteq> []" "list_all well_tagged (wd line1 line2)"
  shows "concat (map span_text (processLineWithWordDiff wd line1 line2 False True)) =
           new_side (wd line1 line2)"
  using assms
  by (simp add: processLine_general wordSpan_right new_side_def new_values_def comp_def
        span_text_rightSpan)

text \<open>
  C5. When the old line is empty the highlighter answers with the new line as one plain
  span, and when the new line is empty with the old line as one plain span, for either
  column; the word diff primitive is not consulted (the result is the same for every
  \<open>wd\<close>), and the string returned is the escaped line.
\<close>

theorem processLineWithWordDiff_empty_side:
  "processLineWithWordDiff wd [] newLine isFile1 isFile2 = [Text newLine] \<and>
   processLineWithWordDiff wd oldLine [] isFile1 isFile2 = [Text oldLine] \<and>
   html_of_spans (processLineWithWordDiff wd [] newLine isFile1 isFile2) = escapeHtml newLine \<and>
   html_of_spans (processLineWithWordDiff wd oldLine [] isFile1 isFile2) = escapeHtml oldLine"
  by (simp add: html_of_spans_def)

text \<open>
  C6. For two non-empty lines whose word diff elements each carry at most one flag, the
  left rendering keeps the elements that are not added (removed ones as \<open>WordRemoved\<close>,
  unchanged ones as plain text) and the right rendering keeps the elements that are not
  removed (added ones as \<open>WordAdded\<close>); when the word diff spells the old line with its
  non-added values and the new line with its non-removed values, the texts of the left
  spans concatenate to the old line and those of the right spans to the new line.
\<close>

theorem processLineWithWordDiff_keeps_and_drops:
  assumes "oldLine \<noteq> []" and "newLine \<noteq> []"
    and "list_all well_tagged (wd oldLine newLine)"
  shows "processLineWithWordDiff wd oldLine newLine True False =
           map leftSpan (filter (\<lambda>c. \<not> added c) (wd oldLine newLine)) \<and>
         processLineWithWordDiff wd oldLine newLine False True =
           map rightSpan (filter (\<lambda>c. \<not> removed c) (wd oldLine newLine)) \<and>
         (old_side (wd oldLine newLine) = oldLine \<longrightarrow>
            concat (map span_text (processLineWithWordDiff wd oldLine newLine True False)) = oldLine) \<and>
         (new_side (wd oldLine newLine) = newLine \<longrightarrow>
            concat (map span_text (processLineWithWordDiff wd oldLine newLine False True)) = newLine)"
proof -
  have l: "processLineWithWordDiff wd oldLine newLine True False =
           map leftSpan (filter (\<lambda>c. \<not> added c) (wd oldLine newLine))"
    using assms by (simp add: processLine_general wordSpan_left)
  have r: "processLineWithWordDiff wd oldLine newLine False True =
           map rightSpan (filter (\<lambda>c. \<not> removed c) (wd oldLine newLine))"
    using assms by (simp add: processLine_general wordSpan_right)
  have lt: "concat (map span_text (processLineWithWordDiff wd oldLine newLine True False)) =
           old_side (wd oldLine newLine)"
    using assms by (rule left_text)
  have rt: "concat (map span_text (processLineWithWordDiff wd oldLine newLine False True)) =
           new_side (wd oldLine newLine)"
    using assms by (rule right_text)
  from lt rt show ?thesis
    by (intro conjI impI) (simp_all only: l r)
qed

theorem processLineWithWordDiff_keeps_and_drops_witness:
  "processLineWithWordDiff
     (fixedDiff [\<lparr>value = ''a '', added = False, removed = False\<rparr>,
                 \<lparr>value = ''x'', added = False, removed = True\<rparr>,
                 \<lparr>value = ''y'', added = True, removed = False\<rparr>]) ''a x'' ''a y'' True False =
     [Text ''a '', WordRemoved ''x''] \<and>
   processLineWithWordDiff
     (fixedDiff [\<lparr>value = ''a '', added = False, removed = False\<rparr>,
                 \<lparr>value = ''x'', added = False, removed = True\<rparr>,
                 \<lparr>value = ''y'', added = True, removed = False\<rparr>]) ''a x'' ''a y'' False True =
     [Text ''a '', WordAdded ''y''] \<and>
   concat (map span_text (processLineWithWordDiff
     (fixedDiff [\<lparr>value = ''a '', added = False, removed = False\<rparr>,
                 \<lparr>value = ''x'', added = False, removed = True\<rparr>,
                 \<lparr>value = ''y'', added = True, removed = False\<rparr>]) ''a x'' ''a y'' True False)) = ''a x'' \<and>
   concat (map span_text (processLineWithWordDiff
     (fixedDiff [\<lparr>value = ''a '', added = False, removed = False\<rparr>,
                 \<lparr>value = ''x'', added = False, removed = True\<rparr>,
                 \<lparr>value = ''y'', added = True, removed = False\<rparr>]) ''a x'' ''a y'' False True)) = ''a y''"
  using processLineWithWordDiff_keeps_and_drops [of "''a x''" "''a y''"
      "fixedDiff [\<lparr>value = ''a '', added = False, removed = False\<rparr>,
                 \<lparr>value = ''x'', added = False, removed = True\<rparr>,
                 \<lparr>value = ''y'', added = True, removed = False\<rparr>]"]
  by (simp add: fixedDiff_def well_tagged_def old_side_def old_values_def new_side_def
        new_values_def leftSpan_def rightSpan_def)

section \<open>Properties of the line splitting\<close>

lemma splitLines_nonempty: "splitLines v \<noteq> []"
  by (induction v) (auto split: list.splits)

lemma popEmpty_Cons_nl:
  "ls \<noteq> [] \<Longrightarrow> popEmpty ([] # ls) = [] # popEmpty ls"
  by (simp add: popEmpty_def)

lemma terminated_Cons:
  "cs \<noteq> [] \<Longrightarrow> terminated (c # cs) = c # terminated cs"
  by (simp add: terminated_def)

lemma splitLines_single: "splitLines v = [l] \<Longrightarrow> l = v"
  by (induction v arbitrary: l) (auto split: list.splits if_splits simp: splitLines_nonempty)

lemma splitLines_single_no_nl: "splitLines v = [l] \<Longrightarrow> nl \<notin> set v"
  by (induction v arbitrary: l) (auto split: list.splits if_splits simp: splitLines_nonempty)

lemma splitLines_many: "splitLines v = l # m # ls \<Longrightarrow> v \<noteq> []"
  by (cases v) auto

lemma linesOf_terminated:
  "concat (map (\<lambda>l. l @ [nl]) (linesOf v)) = terminated v"
proof (induction v)
  case Nil
  show ?case by (simp add: linesOf_def popEmpty_def terminated_def)
next
  case (Cons c cs)
  show ?case
  proof (cases "c = nl")
    case True
    have "linesOf (c # cs) = [] # linesOf cs"
      using True by (simp add: linesOf_def popEmpty_Cons_nl splitLines_nonempty)
    moreover have "terminated (c # cs) = nl # terminated cs"
      using True by (simp add: terminated_def)
    ultimately show ?thesis using Cons by simp
  next
    case False
    obtain l ls where sp: "splitLines cs = l # ls"
      using splitLines_nonempty by (cases "splitLines cs") auto
    show ?thesis
    proof (cases ls)
      case Nil
      with sp have "l = cs" by (simp add: splitLines_single)
      moreover have "cs \<noteq> [] \<longrightarrow> last cs \<noteq> nl"
        using sp Nil splitLines_single_no_nl [of cs l] by (metis last_in_set)
      ultimately show ?thesis
        using sp Nil False by (simp add: linesOf_def popEmpty_def terminated_def)
    next
      case (Cons m ms)
      with sp have ne: "cs \<noteq> []" by (simp add: splitLines_many)
      have "linesOf (c # cs) = (c # hd (linesOf cs)) # tl (linesOf cs)"
        using sp Cons False by (simp add: linesOf_def popEmpty_def)
      moreover have "linesOf cs \<noteq> []"
        using sp Cons by (simp add: linesOf_def popEmpty_def)
      ultimately have "concat (map (\<lambda>l. l @ [nl]) (linesOf (c # cs))) =
                       c # concat (map (\<lambda>l. l @ [nl]) (linesOf cs))"
        by (cases "linesOf cs") simp_all
      then show ?thesis
        using \<open>\<And>x. concat (map (\<lambda>l. l @ [nl]) (linesOf cs)) = terminated cs\<close> ne
        by (simp add: terminated_Cons)
    qed
  qed
qed

lemma terminated_id: "v = [] \<or> last v = nl \<Longrightarrow> terminated v = v"
  by (simp add: terminated_def)

lemma terminated_append:
  "v = [] \<or> last v = nl \<Longrightarrow> v @ terminated w = terminated (v @ w)"
  by (cases "w = []") (auto simp: terminated_def)

lemma terminated_concat:
  "line_granular vs \<Longrightarrow> concat (map terminated vs) = terminated (concat vs)"
proof (induction vs rule: line_granular.induct)
  case 1
  show ?case by (simp add: terminated_def)
next
  case (2 v)
  show ?case by simp
next
  case (3 v w vs)
  then have "concat (map terminated (w # vs)) = terminated (concat (w # vs))" by simp
  moreover have "v = [] \<or> last v = nl" using 3 by simp
  ultimately show ?case
    using terminated_append [of v "concat (w # vs)"] terminated_id [of v] by simp
qed

lemma join_nl_unlines:
  "ts \<noteq> [] \<Longrightarrow> concat (map (\<lambda>l. l @ [nl]) ts) = join_nl ts @ [nl]"
  by (induction ts rule: join_nl.induct) simp_all

lemma join_chomp:
  assumes "concat (map (\<lambda>l. l @ [nl]) ts) = terminated d"
  shows "join_nl ts = chomp d"
proof (cases ts)
  case Nil
  with assms have "terminated d = []" by simp
  then have "d = []" by (simp add: terminated_def split: if_splits)
  with Nil show ?thesis by (simp add: chomp_def)
next
  case (Cons t ts')
  then have "join_nl ts @ [nl] = terminated d"
    using assms join_nl_unlines [of ts] by simp
  then show ?thesis
    by (auto simp: terminated_def chomp_def split: if_splits)
qed

lemma linesOf_explicit:
  "linesOf v = (if last (splitLines v) = [] then butlast (splitLines v) else splitLines v)"
  by (simp add: linesOf_def popEmpty_def splitLines_nonempty)

lemma join_nl_Cons: "ls \<noteq> [] \<Longrightarrow> join_nl (l # ls) = l @ nl # join_nl ls"
  by (cases ls) simp_all

lemma join_nl_Cons_head: "ls \<noteq> [] \<Longrightarrow> join_nl ((c # hd ls) # tl ls) = c # join_nl ls"
  by (cases ls rule: join_nl.cases) simp_all

lemma join_splitLines: "join_nl (splitLines v) = v"
proof (induction v)
  case Nil
  show ?case by simp
next
  case (Cons c cs)
  obtain l ls where sp: "splitLines cs = l # ls"
    using splitLines_nonempty by (cases "splitLines cs") auto
  show ?case
  proof (cases "c = nl")
    case True
    then show ?thesis using Cons by (simp add: join_nl_Cons splitLines_nonempty)
  next
    case False
    have "join_nl ((c # l) # ls) = c # join_nl (l # ls)"
      using join_nl_Cons_head [of "l # ls" c] by simp
    with False sp Cons show ?thesis by simp
  qed
qed

lemma splitLines_no_nl: "l \<in> set (splitLines v) \<Longrightarrow> nl \<notin> set l"
proof (induction v arbitrary: l)
  case Nil
  then show ?case by simp
next
  case (Cons c cs)
  obtain m ms where sp: "splitLines cs = m # ms"
    using splitLines_nonempty by (cases "splitLines cs") auto
  show ?case
  proof (cases "c = nl")
    case True
    with Cons show ?thesis by auto
  next
    case False
    with Cons.prems sp have "l = c # m \<or> l \<in> set ms" by simp
    then show ?thesis
    proof
      assume "l = c # m"
      moreover have "nl \<notin> set m" using Cons.IH [of m] sp by simp
      ultimately show ?thesis using False by auto
    next
      assume "l \<in> set ms"
      then show ?thesis using Cons.IH [of l] sp by simp
    qed
  qed
qed

lemma linesOf_no_nl: "l \<in> set (linesOf v) \<Longrightarrow> nl \<notin> set l"
  using splitLines_no_nl [of l v]
  by (auto simp: linesOf_def popEmpty_def dest: in_set_butlastD split: if_splits)

lemma count_nl_unlines:
  "(\<And>l. l \<in> set ls \<Longrightarrow> nl \<notin> set l) \<Longrightarrow>
   length (filter (\<lambda>x. x = nl) (concat (map (\<lambda>l. l @ [nl]) ls))) = length ls"
proof (induction ls)
  case Nil
  show ?case by simp
next
  case (Cons l ls)
  have "nl \<notin> set l" using Cons.prems by simp
  then have "filter (\<lambda>x. x = nl) l = []" by (auto simp: filter_empty_conv)
  moreover have "length (filter (\<lambda>x. x = nl) (concat (map (\<lambda>l. l @ [nl]) ls))) = length ls"
    using Cons by simp
  ultimately show ?case by simp
qed

lemma length_linesOf:
  "length (linesOf v) =
     length (filter (\<lambda>x. x = nl) v) + (if v = [] \<or> last v = nl then 0 else 1)"
proof -
  have "length (linesOf v) =
        length (filter (\<lambda>x. x = nl) (concat (map (\<lambda>l. l @ [nl]) (linesOf v))))"
    using count_nl_unlines [of "linesOf v"] linesOf_no_nl [of _ v] by simp
  also have "\<dots> = length (filter (\<lambda>x. x = nl) (terminated v))"
    by (simp only: linesOf_terminated)
  also have "\<dots> = length (filter (\<lambda>x. x = nl) v) + (if v = [] \<or> last v = nl then 0 else 1)"
    by (simp add: terminated_def)
  finally show ?thesis .
qed

section \<open>Properties of the row emission\<close>

lemma modifiedLoop_closed:
  "modifiedLoop wd oldLines newLines maxLines i st =
     st\<lparr>file1Html := file1Html st @
            map (\<lambda>k. Line ClassModified (lineNumber1 st + k)
                   (processLineWithWordDiff wd (lineAt oldLines (i + k)) (lineAt newLines (i + k)) True False))
                [0..<maxLines - i],
        lineNumber1 := lineNumber1 st + (maxLines - i),
        file2Html := file2Html st @
            map (\<lambda>k. Line ClassModified (lineNumber2 st + k)
                   (processLineWithWordDiff wd (lineAt oldLines (i + k)) (lineAt newLines (i + k)) False True))
                [0..<maxLines - i],
        lineNumber2 := lineNumber2 st + (maxLines - i)\<rparr>"
proof (induction wd oldLines newLines maxLines i st rule: modifiedLoop.induct)
  case (1 wd oldLines newLines maxLines i st)
  show ?case
  proof (cases "i < maxLines")
    case False
    then show ?thesis by (subst modifiedLoop.simps) simp
  next
    case True
    then have m: "maxLines - i = Suc (maxLines - (i + 1))" by simp
    let ?st' = "st\<lparr>file1Html := file1Html st @
                       [Line ClassModified (lineNumber1 st)
                          (processLineWithWordDiff wd (lineAt oldLines i) (lineAt newLines i) True False)],
                   lineNumber1 := lineNumber1 st + 1,
                   file2Html := file2Html st @
                       [Line ClassModified (lineNumber2 st)
                          (processLineWithWordDiff wd (lineAt oldLines i) (lineAt newLines i) False True)],
                   lineNumber2 := lineNumber2 st + 1\<rparr>"
    have "modifiedLoop wd oldLines newLines maxLines i st =
          modifiedLoop wd oldLines newLines maxLines (i + 1) ?st'"
      by (subst modifiedLoop.simps) (simp add: True Let_def)
    also note 1 [OF True refl refl]
    finally show ?thesis
      unfolding m map_upt_Suc by simp
  qed
qed

lemma foldl_addedLine_closed:
  "foldl (addedLine wd) st ls =
     st\<lparr>file1Html := file1Html st @ replicate (length ls) EmptyLine,
        file2Html := file2Html st @
            map (\<lambda>k. Line ClassAdded (lineNumber2 st + k) [Text (ls ! k)]) [0..<length ls],
        lineNumber2 := lineNumber2 st + length ls\<rparr>"
proof (induction ls arbitrary: st)
  case Nil
  show ?case by simp
next
  case (Cons l ls)
  show ?case
    by (simp only: foldl_Cons Cons length_Cons map_upt_Suc) (simp add: addedLine_def)
qed

lemma foldl_removedLine_closed:
  "foldl (removedLine wd) st ls =
     st\<lparr>file1Html := file1Html st @
            map (\<lambda>k. Line ClassRemoved (lineNumber1 st + k) [Text (ls ! k)]) [0..<length ls],
        lineNumber1 := lineNumber1 st + length ls,
        file2Html := file2Html st @ replicate (length ls) EmptyLine\<rparr>"
proof (induction ls arbitrary: st)
  case Nil
  show ?case by simp
next
  case (Cons l ls)
  show ?case
    by (simp only: foldl_Cons Cons length_Cons map_upt_Suc) (simp add: removedLine_def)
qed

lemma foldl_unchangedLine_closed:
  "foldl unchangedLine st ls =
     st\<lparr>file1Html := file1Html st @
            map (\<lambda>k. Line ClassNone (lineNumber1 st + k) [Text (ls ! k)]) [0..<length ls],
        lineNumber1 := lineNumber1 st + length ls,
        file2Html := file2Html st @
            map (\<lambda>k. Line ClassNone (lineNumber2 st + k) [Text (ls ! k)]) [0..<length ls],
        lineNumber2 := lineNumber2 st + length ls\<rparr>"
proof (induction ls arbitrary: st)
  case Nil
  show ?case by simp
next
  case (Cons l ls)
  show ?case
    by (simp only: foldl_Cons Cons length_Cons map_upt_Suc) (simp add: unchangedLine_def)
qed

lemma emitPart_Modified_closed:
  "emitPart wd st (Modified old new) =
     st\<lparr>file1Html := file1Html st @
            map (\<lambda>k. Line ClassModified (lineNumber1 st + k)
                   (processLineWithWordDiff wd (lineAt (linesOf old) k) (lineAt (linesOf new) k) True False))
                [0..<max (length (linesOf old)) (length (linesOf new))],
        lineNumber1 := lineNumber1 st + max (length (linesOf old)) (length (linesOf new)),
        file2Html := file2Html st @
            map (\<lambda>k. Line ClassModified (lineNumber2 st + k)
                   (processLineWithWordDiff wd (lineAt (linesOf old) k) (lineAt (linesOf new) k) False True))
                [0..<max (length (linesOf old)) (length (linesOf new))],
        lineNumber2 := lineNumber2 st + max (length (linesOf old)) (length (linesOf new))\<rparr>"
  by (simp add: emitPart_def Let_def modifiedLoop_closed)

lemma emitPart_added_closed:
  "added c \<Longrightarrow>
   emitPart wd st (Part c) =
     st\<lparr>file1Html := file1Html st @ replicate (length (linesOf (value c))) EmptyLine,
        file2Html := file2Html st @
            map (\<lambda>k. Line ClassAdded (lineNumber2 st + k) [Text (linesOf (value c) ! k)])
                [0..<length (linesOf (value c))],
        lineNumber2 := lineNumber2 st + length (linesOf (value c))\<rparr>"
  by (simp add: emitPart_def foldl_addedLine_closed)

lemma emitPart_removed_closed:
  "\<not> added c \<Longrightarrow> removed c \<Longrightarrow>
   emitPart wd st (Part c) =
     st\<lparr>file1Html := file1Html st @
            map (\<lambda>k. Line ClassRemoved (lineNumber1 st + k) [Text (linesOf (value c) ! k)])
                [0..<length (linesOf (value c))],
        lineNumber1 := lineNumber1 st + length (linesOf (value c)),
        file2Html := file2Html st @ replicate (length (linesOf (value c))) EmptyLine\<rparr>"
  by (simp add: emitPart_def foldl_removedLine_closed)

lemma emitPart_unchanged_closed:
  "\<not> added c \<Longrightarrow> \<not> removed c \<Longrightarrow>
   emitPart wd st (Part c) =
     st\<lparr>file1Html := file1Html st @
            map (\<lambda>k. Line ClassNone (lineNumber1 st + k) [Text (linesOf (value c) ! k)])
                [0..<length (linesOf (value c))],
        lineNumber1 := lineNumber1 st + length (linesOf (value c)),
        file2Html := file2Html st @
            map (\<lambda>k. Line ClassNone (lineNumber2 st + k) [Text (linesOf (value c) ! k)])
                [0..<length (linesOf (value c))],
        lineNumber2 := lineNumber2 st + length (linesOf (value c))\<rparr>"
  by (simp add: emitPart_def foldl_unchangedLine_closed)

text \<open>
  C4. A modified block splits both values into lines without the trailing empty line,
  pairs the lines by index with the empty string for a missing side, and appends for each
  of the \<open>max\<close> of the two line counts one row of class modified to each column, never a
  placeholder, each with the next line number of its column; both counters advance by
  that number of pairs. The lines of a value are the pieces between its line feeds (they
  join back to the value and hold no line feed) without the last piece when that is empty,
  so their number is the number of line feeds, plus one when the value does not end with
  one.
\<close>

theorem modified_block_rows:
  "emitPart wd st (Modified old new) =
     (let oldLines = linesOf old;
          newLines = linesOf new;
          maxLines = max (length oldLines) (length newLines)
      in st\<lparr>file1Html := file1Html st @
              map (\<lambda>i. Line ClassModified (lineNumber1 st + i)
                     (processLineWithWordDiff wd
                        (if i < length oldLines then oldLines ! i else [])
                        (if i < length newLines then newLines ! i else []) True False))
                  [0..<maxLines],
            lineNumber1 := lineNumber1 st + maxLines,
            file2Html := file2Html st @
              map (\<lambda>i. Line ClassModified (lineNumber2 st + i)
                     (processLineWithWordDiff wd
                        (if i < length oldLines then oldLines ! i else [])
                        (if i < length newLines then newLines ! i else []) False True))
                  [0..<maxLines],
            lineNumber2 := lineNumber2 st + maxLines\<rparr>) \<and>
   linesOf v = (if last (splitLines v) = [] then butlast (splitLines v) else splitLines v) \<and>
   join_nl (splitLines v) = v \<and>
   (\<forall>l\<in>set (splitLines v). nl \<notin> set l) \<and>
   length (linesOf v) =
     length (filter (\<lambda>x. x = nl) v) + (if v = [] \<or> last v = nl then 0 else 1)"
proof (intro conjI)
  show "emitPart wd st (Modified old new) =
     (let oldLines = linesOf old;
          newLines = linesOf new;
          maxLines = max (length oldLines) (length newLines)
      in st\<lparr>file1Html := file1Html st @
              map (\<lambda>i. Line ClassModified (lineNumber1 st + i)
                     (processLineWithWordDiff wd
                        (if i < length oldLines then oldLines ! i else [])
                        (if i < length newLines then newLines ! i else []) True False))
                  [0..<maxLines],
            lineNumber1 := lineNumber1 st + maxLines,
            file2Html := file2Html st @
              map (\<lambda>i. Line ClassModified (lineNumber2 st + i)
                     (processLineWithWordDiff wd
                        (if i < length oldLines then oldLines ! i else [])
                        (if i < length newLines then newLines ! i else []) False True))
                  [0..<maxLines],
            lineNumber2 := lineNumber2 st + maxLines\<rparr>)"
    unfolding Let_def emitPart_Modified_closed lineAt_def ..
  show "linesOf v = (if last (splitLines v) = [] then butlast (splitLines v) else splitLines v)"
    by (rule linesOf_explicit)
  show "join_nl (splitLines v) = v"
    by (rule join_splitLines)
  show "\<forall>l\<in>set (splitLines v). nl \<notin> set l"
    by (simp add: splitLines_no_nl)
  show "length (linesOf v) =
     length (filter (\<lambda>x. x = nl) v) + (if v = [] \<or> last v = nl then 0 else 1)"
    by (rule length_linesOf)
qed

theorem modified_block_rows_witness:
  "emitPart wholeLineDiff initialState (Modified ''x\<newline>'' ''y\<newline>z\<newline>'') =
     \<lparr>file1Html = [Line ClassModified 1 [WordRemoved ''x''], Line ClassModified 2 [Text ''z'']],
      file2Html = [Line ClassModified 1 [WordAdded ''y''], Line ClassModified 2 [Text ''z'']],
      lineNumber1 = 3, lineNumber2 = 3\<rparr> \<and>
   linesOf ''y\<newline>z\<newline>'' = [''y'', ''z'']"
proof -
  have sx: "splitLines ''x\<newline>'' = [''x'', '''']"
    and sy: "splitLines ''y\<newline>z\<newline>'' = [''y'', ''z'', '''']"
    by (simp_all add: nl_def)
  note r = modified_block_rows [where wd = wholeLineDiff and st = initialState and old = "''x\<newline>''"
      and new = "''y\<newline>z\<newline>''", THEN conjunct1]
  note lx = modified_block_rows [where v = "''x\<newline>''", THEN conjunct2, THEN conjunct1]
  note ly = modified_block_rows [where v = "''y\<newline>z\<newline>''", THEN conjunct2, THEN conjunct1]
  have x: "linesOf ''x\<newline>'' = [''x'']" using lx by (simp add: sx nl_def)
  have y: "linesOf ''y\<newline>z\<newline>'' = [''y'', ''z'']" using ly by (simp add: sy nl_def)
  have up: "[0..<2] = [0, Suc 0]" by (simp add: upt_rec)
  have w: "processLineWithWordDiff wholeLineDiff ''x'' ''y'' True False = [WordRemoved ''x'']"
    "processLineWithWordDiff wholeLineDiff ''x'' ''y'' False True = [WordAdded ''y'']"
    by (simp_all add: processLineWithWordDiff_def wholeLineDiff_def wordSpan_def)
  show ?thesis
    using r y by (simp add: x Let_def up numeral_2_eq_2 initialState_def w)
qed

text \<open>
  C10. In a modified block, at an index where the old line is empty (or missing because
  the old side has fewer lines) both columns show the new line as one plain span, and at an
  index where the new line is empty or missing both columns show the old line: the extra
  rows of the shorter side are copies of the longer side's lines.
\<close>

theorem modified_block_copies_other_side:
  assumes "i < max (length (linesOf old)) (length (linesOf new))"
  shows "(lineAt (linesOf old) i = [] \<longrightarrow>
            file1Html (emitPart wd st (Modified old new)) ! (length (file1Html st) + i) =
              Line ClassModified (lineNumber1 st + i) [Text (lineAt (linesOf new) i)] \<and>
            file2Html (emitPart wd st (Modified old new)) ! (length (file2Html st) + i) =
              Line ClassModified (lineNumber2 st + i) [Text (lineAt (linesOf new) i)]) \<and>
         (lineAt (linesOf new) i = [] \<longrightarrow>
            file1Html (emitPart wd st (Modified old new)) ! (length (file1Html st) + i) =
              Line ClassModified (lineNumber1 st + i) [Text (lineAt (linesOf old) i)] \<and>
            file2Html (emitPart wd st (Modified old new)) ! (length (file2Html st) + i) =
              Line ClassModified (lineNumber2 st + i) [Text (lineAt (linesOf old) i)]) \<and>
         (length (linesOf old) \<le> i \<longrightarrow>
            row_text (file1Html (emitPart wd st (Modified old new)) ! (length (file1Html st) + i)) =
              linesOf new ! i) \<and>
         (length (linesOf new) \<le> i \<longrightarrow>
            row_text (file2Html (emitPart wd st (Modified old new)) ! (length (file2Html st) + i)) =
              linesOf old ! i)"
  using assms
  by (auto simp add: emitPart_Modified_closed nth_append row_text_def lineAt_def)

theorem modified_block_copies_other_side_witness:
  "file1Html (emitPart wholeLineDiff initialState (Modified ''x'' ''y\<newline>z'')) ! 1 =
     Line ClassModified 2 [Text ''z''] \<and>
   file2Html (emitPart wholeLineDiff initialState (Modified ''x'' ''y\<newline>z'')) ! 1 =
     Line ClassModified 2 [Text ''z''] \<and>
   row_text (file1Html (emitPart wholeLineDiff initialState (Modified ''x'' ''y\<newline>z'')) ! 1) = ''z''"
proof -
  have lo: "linesOf ''x'' = [''x'']" and ln: "linesOf ''y\<newline>z'' = [''y'', ''z'']"
    by (simp_all add: linesOf_def popEmpty_def nl_def)
  show ?thesis
    using modified_block_copies_other_side [of 1 "''x''" "''y\<newline>z''" wholeLineDiff initialState]
    by (simp add: lo ln lineAt_def initialState_def row_text_def)
qed

text \<open>
  C8. An added element appends one placeholder per line to the left column and one row of
  class added per line to the right column, numbered by the right counter, which advances
  by the number of lines; a removed element does the same with the columns exchanged and
  class removed. Each of these rows carries the whole line as one span. The lines are the
  pieces between the line feeds of the value without the trailing empty piece, as many as
  the value has line feeds, plus one when it does not end with one. When the line diff
  answers the comparison of the empty text with the two lines a and b by one added element,
  the result is two placeholders on the left and the added rows a and b on the right
  (whitespace is kept here; with \<open>ignoreWhitespace\<close> the two lines become one).
\<close>

theorem pure_added_removed_rows:
  "(added c \<longrightarrow>
      emitPart wd st (Part c) =
        st\<lparr>file1Html := file1Html st @ replicate (length (linesOf (value c))) EmptyLine,
           file2Html := file2Html st @
             map (\<lambda>i. Line ClassAdded (lineNumber2 st + i) [Text (linesOf (value c) ! i)])
                 [0..<length (linesOf (value c))],
           lineNumber2 := lineNumber2 st + length (linesOf (value c))\<rparr>) \<and>
   (removed c \<and> \<not> added c \<longrightarrow>
      emitPart wd st (Part c) =
        st\<lparr>file1Html := file1Html st @
             map (\<lambda>i. Line ClassRemoved (lineNumber1 st + i) [Text (linesOf (value c) ! i)])
                 [0..<length (linesOf (value c))],
           lineNumber1 := lineNumber1 st + length (linesOf (value c)),
           file2Html := file2Html st @ replicate (length (linesOf (value c))) EmptyLine\<rparr>) \<and>
   linesOf (value c) =
     (if last (splitLines (value c)) = [] then butlast (splitLines (value c))
      else splitLines (value c)) \<and>
   join_nl (splitLines (value c)) = value c \<and>
   (\<forall>l\<in>set (splitLines (value c)). nl \<notin> set l) \<and>
   length (linesOf (value c)) =
     length (filter (\<lambda>x. x = nl) (value c)) +
     (if value c = [] \<or> last (value c) = nl then 0 else 1) \<and>
   (dl [] ''a\<newline>b'' = [\<lparr>value = ''a\<newline>b'', added = True, removed = False\<rparr>] \<longrightarrow>
      getHtmlForWebview dl wd False ic [] ''a\<newline>b'' =
        \<lparr>file1Html = [EmptyLine, EmptyLine],
         file2Html = [Line ClassAdded 1 [Text ''a''], Line ClassAdded 2 [Text ''b'']],
         lineNumber1 = 1, lineNumber2 = 3\<rparr>)"
proof (intro conjI impI)
  assume "added c"
  then show "emitPart wd st (Part c) =
        st\<lparr>file1Html := file1Html st @ replicate (length (linesOf (value c))) EmptyLine,
           file2Html := file2Html st @
             map (\<lambda>i. Line ClassAdded (lineNumber2 st + i) [Text (linesOf (value c) ! i)])
                 [0..<length (linesOf (value c))],
           lineNumber2 := lineNumber2 st + length (linesOf (value c))\<rparr>"
    by (rule emitPart_added_closed)
next
  assume "removed c \<and> \<not> added c"
  then show "emitPart wd st (Part c) =
        st\<lparr>file1Html := file1Html st @
             map (\<lambda>i. Line ClassRemoved (lineNumber1 st + i) [Text (linesOf (value c) ! i)])
                 [0..<length (linesOf (value c))],
           lineNumber1 := lineNumber1 st + length (linesOf (value c)),
           file2Html := file2Html st @ replicate (length (linesOf (value c))) EmptyLine\<rparr>"
    by (simp add: emitPart_removed_closed)
next
  show "linesOf (value c) =
     (if last (splitLines (value c)) = [] then butlast (splitLines (value c))
      else splitLines (value c))"
    by (rule linesOf_explicit)
  show "join_nl (splitLines (value c)) = value c"
    by (rule join_splitLines)
  show "\<forall>l\<in>set (splitLines (value c)). nl \<notin> set l"
    by (simp add: splitLines_no_nl)
  show "length (linesOf (value c)) =
     length (filter (\<lambda>x. x = nl) (value c)) +
     (if value c = [] \<or> last (value c) = nl then 0 else 1)"
    by (rule length_linesOf)
next
  assume dl: "dl [] ''a\<newline>b'' = [\<lparr>value = ''a\<newline>b'', added = True, removed = False\<rparr>]"
  have n1: "normalize False ic [] = []"
    by (simp add: normalize_def toLowerCase_def)
  have n2: "normalize False ic ''a\<newline>b'' = ''a\<newline>b''"
    by (simp add: normalize_def toLowerCase_def lower_char_def)
  have ln: "linesOf ''a\<newline>b'' = [''a'', ''b'']"
    by (simp add: linesOf_def popEmpty_def nl_def)
  have up: "[0..<2] = [0, Suc 0]" by (simp add: upt_rec)
  show "getHtmlForWebview dl wd False ic [] ''a\<newline>b'' =
        \<lparr>file1Html = [EmptyLine, EmptyLine],
         file2Html = [Line ClassAdded 1 [Text ''a''], Line ClassAdded 2 [Text ''b'']],
         lineNumber1 = 1, lineNumber2 = 3\<rparr>"
    unfolding getHtmlForWebview_def n1 n2 dl alignRows_def findModifiedBlocks_eq_greedyPass
    by (simp add: emitPart_added_closed ln initialState_def up numeral_2_eq_2)
qed

theorem pure_added_removed_rows_witness:
  "getHtmlForWebview
     (fixedDiff [\<lparr>value = ''a\<newline>b'', added = True, removed = False\<rparr>])
     wholeLineDiff False False [] ''a\<newline>b'' =
     \<lparr>file1Html = [EmptyLine, EmptyLine],
      file2Html = [Line ClassAdded 1 [Text ''a''], Line ClassAdded 2 [Text ''b'']],
      lineNumber1 = 1, lineNumber2 = 3\<rparr> \<and>
   emitPart wholeLineDiff initialState
     (Part \<lparr>value = ''a\<newline>b\<newline>'', added = False, removed = True\<rparr>) =
     \<lparr>file1Html = [Line ClassRemoved 1 [Text ''a''], Line ClassRemoved 2 [Text ''b'']],
      file2Html = [EmptyLine, EmptyLine],
      lineNumber1 = 3, lineNumber2 = 1\<rparr> \<and>
   emitPart wholeLineDiff initialState
     (Part \<lparr>value = ''a\<newline>b\<newline>'', added = True, removed = False\<rparr>) =
     \<lparr>file1Html = [EmptyLine, EmptyLine],
      file2Html = [Line ClassAdded 1 [Text ''a''], Line ClassAdded 2 [Text ''b'']],
      lineNumber1 = 1, lineNumber2 = 3\<rparr> \<and>
   length (linesOf ''a\<newline>b\<newline>'') = 2"
proof -
  have sp: "splitLines ''a\<newline>b\<newline>'' = [''a'', ''b'', '''']"
    by (simp add: nl_def)
  have up: "[0..<2] = [0, Suc 0]" by (simp add: upt_rec)
  note t1 = pure_added_removed_rows [where dl = "fixedDiff [\<lparr>value = ''a\<newline>b'', added = True, removed = False\<rparr>]"
      and wd = wholeLineDiff and ic = False,
      THEN conjunct2, THEN conjunct2, THEN conjunct2, THEN conjunct2, THEN conjunct2,
      THEN conjunct2]
  note rem = pure_added_removed_rows [where c = "\<lparr>value = ''a\<newline>b\<newline>'', added = False, removed = True\<rparr>"
      and wd = wholeLineDiff and st = initialState]
  note add = pure_added_removed_rows [where c = "\<lparr>value = ''a\<newline>b\<newline>'', added = True, removed = False\<rparr>"
      and wd = wholeLineDiff and st = initialState]
  have ln: "linesOf ''a\<newline>b\<newline>'' = [''a'', ''b'']"
    using rem [THEN conjunct2, THEN conjunct2, THEN conjunct1] by (simp add: sp nl_def)
  have a: "getHtmlForWebview
     (fixedDiff [\<lparr>value = ''a\<newline>b'', added = True, removed = False\<rparr>])
     wholeLineDiff False False [] ''a\<newline>b'' =
     \<lparr>file1Html = [EmptyLine, EmptyLine],
      file2Html = [Line ClassAdded 1 [Text ''a''], Line ClassAdded 2 [Text ''b'']],
      lineNumber1 = 1, lineNumber2 = 3\<rparr>"
    using t1 by (simp add: fixedDiff_def)
  have b: "emitPart wholeLineDiff initialState
     (Part \<lparr>value = ''a\<newline>b\<newline>'', added = False, removed = True\<rparr>) =
     \<lparr>file1Html = [Line ClassRemoved 1 [Text ''a''], Line ClassRemoved 2 [Text ''b'']],
      file2Html = [EmptyLine, EmptyLine],
      lineNumber1 = 3, lineNumber2 = 1\<rparr>"
    using rem [THEN conjunct2, THEN conjunct1]
    by (simp add: ln initialState_def up numeral_2_eq_2)
  have c: "emitPart wholeLineDiff initialState
     (Part \<lparr>value = ''a\<newline>b\<newline>'', added = True, removed = False\<rparr>) =
     \<lparr>file1Html = [EmptyLine, EmptyLine],
      file2Html = [Line ClassAdded 1 [Text ''a''], Line ClassAdded 2 [Text ''b'']],
      lineNumber1 = 1, lineNumber2 = 3\<rparr>"
    using add [THEN conjunct1]
    by (simp add: ln initialState_def up numeral_2_eq_2)
  from a b c ln show ?thesis by simp
qed

section \<open>Alignment of the two columns\<close>

lemma list_all2_map_upt:
  "(\<And>k. k < n \<Longrightarrow> P (f k) (g k)) \<Longrightarrow> list_all2 P (map f [0..<n]) (map g [0..<n])"
  by (simp add: list_all2_conv_all_nth)

lemma list_all2_replicate_left:
  "(\<And>k. k < n \<Longrightarrow> P x (g k)) \<Longrightarrow> list_all2 P (replicate n x) (map g [0..<n])"
  by (simp add: list_all2_conv_all_nth)

lemma list_all2_replicate_right:
  "(\<And>k. k < n \<Longrightarrow> P (f k) x) \<Longrightarrow> list_all2 P (map f [0..<n]) (replicate n x)"
  by (simp add: list_all2_conv_all_nth)

lemma emitPart_aligned:
  assumes "list_all2 aligned (file1Html st) (file2Html st)"
  shows "list_all2 aligned (file1Html (emitPart wd st p)) (file2Html (emitPart wd st p))"
proof (cases p)
  case (Modified old new)
  show ?thesis
    unfolding Modified emitPart_Modified_closed using assms
    by (simp add: list_all2_appendI list_all2_map_upt)
next
  case (Part c)
  show ?thesis
  proof (cases "added c")
    case True
    then show ?thesis
      unfolding Part using assms
      by (simp add: emitPart_added_closed list_all2_appendI list_all2_replicate_left)
  next
    case False
    note na = this
    show ?thesis
    proof (cases "removed c")
      case True
      with na show ?thesis
        unfolding Part using assms
        by (simp add: emitPart_removed_closed list_all2_appendI list_all2_replicate_right)
    next
      case False
      with na show ?thesis
        unfolding Part using assms
        by (simp add: emitPart_unchanged_closed list_all2_appendI list_all2_map_upt)
    qed
  qed
qed

lemma foldl_emitPart_aligned:
  "list_all2 aligned (file1Html st) (file2Html st) \<Longrightarrow>
   list_all2 aligned (file1Html (foldl (emitPart wd) st ps)) (file2Html (foldl (emitPart wd) st ps))"
  by (induction ps arbitrary: st) (simp_all add: emitPart_aligned)

lemma alignRows_aligned:
  "list_all2 aligned (file1Html (alignRows wd ops)) (file2Html (alignRows wd ops))"
  unfolding alignRows_def by (rule foldl_emitPart_aligned) (simp add: initialState_def)

lemma aligned_placeholders:
  "aligned a b \<Longrightarrow>
   \<not> (is_placeholder a \<and> is_placeholder b) \<and>
   (row_class a = Some ClassModified \<or> row_class b = Some ClassModified \<longrightarrow>
      \<not> is_placeholder a \<and> \<not> is_placeholder b)"
  by (cases a; cases b) auto

text \<open>
  C2. For all inputs, options and diff primitives the two columns have equally many rows;
  at each index the pair of rows is an unchanged pair, a removed row beside a placeholder,
  a placeholder beside an added row, or two modified rows, so never two placeholders, and
  beside a modified row stands a content row. The rows a modified block appends are content
  rows of class modified, equally many on both sides.
\<close>

theorem rows_aligned:
  "length (file1Html (getHtmlForWebview dl wd ws ic f1 f2)) =
   length (file2Html (getHtmlForWebview dl wd ws ic f1 f2)) \<and>
   (\<forall>i < length (file1Html (getHtmlForWebview dl wd ws ic f1 f2)).
      aligned (file1Html (getHtmlForWebview dl wd ws ic f1 f2) ! i)
              (file2Html (getHtmlForWebview dl wd ws ic f1 f2) ! i) \<and>
      \<not> (is_placeholder (file1Html (getHtmlForWebview dl wd ws ic f1 f2) ! i) \<and>
         is_placeholder (file2Html (getHtmlForWebview dl wd ws ic f1 f2) ! i)) \<and>
      (row_class (file1Html (getHtmlForWebview dl wd ws ic f1 f2) ! i) = Some ClassModified \<or>
       row_class (file2Html (getHtmlForWebview dl wd ws ic f1 f2) ! i) = Some ClassModified \<longrightarrow>
         \<not> is_placeholder (file1Html (getHtmlForWebview dl wd ws ic f1 f2) ! i) \<and>
         \<not> is_placeholder (file2Html (getHtmlForWebview dl wd ws ic f1 f2) ! i))) \<and>
   (\<exists>ls rs. file1Html (emitPart wd st (Modified old new)) = file1Html st @ ls \<and>
            file2Html (emitPart wd st (Modified old new)) = file2Html st @ rs \<and>
            length ls = length rs \<and>
            (\<forall>r \<in> set ls \<union> set rs. \<not> is_placeholder r \<and> row_class r = Some ClassModified))"
proof -
  let ?R = "getHtmlForWebview dl wd ws ic f1 f2"
  have a: "list_all2 aligned (file1Html ?R) (file2Html ?R)"
    unfolding getHtmlForWebview_def by (rule alignRows_aligned)
  then have len: "length (file1Html ?R) = length (file2Html ?R)"
    by (rule list_all2_lengthD)
  have nth: "\<And>i. i < length (file1Html ?R) \<Longrightarrow> aligned (file1Html ?R ! i) (file2Html ?R ! i)"
    using a by (simp add: list_all2_conv_all_nth)
  have blk: "\<exists>ls rs. file1Html (emitPart wd st (Modified old new)) = file1Html st @ ls \<and>
            file2Html (emitPart wd st (Modified old new)) = file2Html st @ rs \<and>
            length ls = length rs \<and>
            (\<forall>r \<in> set ls \<union> set rs. \<not> is_placeholder r \<and> row_class r = Some ClassModified)"
    unfolding emitPart_Modified_closed
    by (intro exI conjI) (simp, simp, simp, auto)
  show ?thesis
    using len nth aligned_placeholders blk by blast
qed

theorem rows_aligned_witness:
  "1 < length (file1Html (getHtmlForWebview
           (fixedDiff [\<lparr>value = ''x'', added = False, removed = True\<rparr>,
                       \<lparr>value = ''y\<newline>z'', added = True, removed = False\<rparr>])
           wholeLineDiff False False ''x'' ''y\<newline>z'')) \<and>
   aligned
     (file1Html (getHtmlForWebview
           (fixedDiff [\<lparr>value = ''x'', added = False, removed = True\<rparr>,
                       \<lparr>value = ''y\<newline>z'', added = True, removed = False\<rparr>])
           wholeLineDiff False False ''x'' ''y\<newline>z'') ! 1)
     (file2Html (getHtmlForWebview
           (fixedDiff [\<lparr>value = ''x'', added = False, removed = True\<rparr>,
                       \<lparr>value = ''y\<newline>z'', added = True, removed = False\<rparr>])
           wholeLineDiff False False ''x'' ''y\<newline>z'') ! 1)"
proof -
  let ?R = "getHtmlForWebview
           (fixedDiff [\<lparr>value = ''x'', added = False, removed = True\<rparr>,
                       \<lparr>value = ''y\<newline>z'', added = True, removed = False\<rparr>])
           wholeLineDiff False False ''x'' ''y\<newline>z''"
  have len: "1 < length (file1Html ?R)"
    by code_simp
  moreover have "\<forall>i < length (file1Html ?R). aligned (file1Html ?R ! i) (file2Html ?R ! i)"
    using rows_aligned [of "fixedDiff [\<lparr>value = ''x'', added = False, removed = True\<rparr>,
                       \<lparr>value = ''y\<newline>z'', added = True, removed = False\<rparr>]"
        wholeLineDiff False False "''x''" "''y\<newline>z''"]
    by blast
  ultimately show ?thesis by blast
qed

section \<open>Reconstruction of the documents from the rows\<close>

lemma part_lines_simps:
  "part_old_lines (Modified old new) = linesOf old"
  "part_old_lines (Part c) = (if added c then [] else linesOf (value c))"
  "part_new_lines (Modified old new) = linesOf new"
  "part_new_lines (Part c) =
     (if added c then linesOf (value c) else if removed c then [] else linesOf (value c))"
  by (simp_all add: part_old_lines_def part_new_lines_def)

lemma content_texts_append:
  "content_texts (a @ b) = content_texts a @ content_texts b"
  by (simp add: content_texts_def)

lemma content_texts_placeholders: "content_texts (replicate n EmptyLine) = []"
  by (simp add: content_texts_def)

lemma content_texts_lines:
  "content_texts (map (\<lambda>k. Line cl (f k) (g k)) [0..<n]) =
     map (\<lambda>k. concat (map span_text (g k))) [0..<n]"
  by (simp add: content_texts_def row_text_def comp_def)

lemma content_texts_whole_lines:
  "content_texts (map (\<lambda>k. Line cl (f k) [Text (ls ! k)]) [0..<length ls]) = ls"
  by (simp add: content_texts_lines map_nth)

lemma paired_text_left:
  assumes "(a = []) = (b = [])"
    and "a \<noteq> [] \<and> b \<noteq> [] \<longrightarrow> diff_contract (wd a b) a b"
  shows "concat (map span_text (processLineWithWordDiff wd a b True False)) = a"
proof (cases "a = []")
  case True
  with assms show ?thesis by simp
next
  case False
  with assms have "b \<noteq> []" and "diff_contract (wd a b) a b" by simp_all
  with False show ?thesis
    by (simp add: left_text diff_contract_def)
qed

lemma paired_text_right:
  assumes "(a = []) = (b = [])"
    and "a \<noteq> [] \<and> b \<noteq> [] \<longrightarrow> diff_contract (wd a b) a b"
  shows "concat (map span_text (processLineWithWordDiff wd a b False True)) = b"
proof (cases "a = []")
  case True
  with assms show ?thesis by simp
next
  case False
  with assms have "b \<noteq> []" and "diff_contract (wd a b) a b" by simp_all
  with False show ?thesis
    by (simp add: right_text diff_contract_def)
qed

lemma modified_texts:
  assumes wd: "\<forall>a b. a \<noteq> [] \<and> b \<noteq> [] \<longrightarrow> diff_contract (wd a b) a b"
    and paired: "list_all2 (\<lambda>a b. (a = []) = (b = [])) ol nl'"
  shows "map (\<lambda>k. concat (map span_text
             (processLineWithWordDiff wd (lineAt ol k) (lineAt nl' k) True False)))
           [0..<max (length ol) (length nl')] = ol"
    and "map (\<lambda>k. concat (map span_text
             (processLineWithWordDiff wd (lineAt ol k) (lineAt nl' k) False True)))
           [0..<max (length ol) (length nl')] = nl'"
proof -
  have len: "length ol = length nl'" using paired by (rule list_all2_lengthD)
  have p: "\<And>k. k < length ol \<Longrightarrow> (ol ! k = []) = (nl' ! k = [])"
    using paired by (simp add: list_all2_conv_all_nth)
  show "map (\<lambda>k. concat (map span_text
             (processLineWithWordDiff wd (lineAt ol k) (lineAt nl' k) True False)))
           [0..<max (length ol) (length nl')] = ol"
    using len p wd by (intro nth_equalityI) (simp_all add: lineAt_def paired_text_left)
  show "map (\<lambda>k. concat (map span_text
             (processLineWithWordDiff wd (lineAt ol k) (lineAt nl' k) False True)))
           [0..<max (length ol) (length nl')] = nl'"
    using len p wd by (intro nth_equalityI) (simp_all add: lineAt_def paired_text_right)
qed

lemma emitPart_texts:
  assumes wd: "\<forall>a b. a \<noteq> [] \<and> b \<noteq> [] \<longrightarrow> diff_contract (wd a b) a b"
    and paired: "block_paired p"
  shows "content_texts (file1Html (emitPart wd st p)) =
           content_texts (file1Html st) @ part_old_lines p"
    and "content_texts (file2Html (emitPart wd st p)) =
           content_texts (file2Html st) @ part_new_lines p"
proof -
  have "content_texts (file1Html (emitPart wd st p)) =
           content_texts (file1Html st) @ part_old_lines p \<and>
        content_texts (file2Html (emitPart wd st p)) =
           content_texts (file2Html st) @ part_new_lines p"
  proof (cases p)
    case (Modified old new)
    with paired have pr: "list_all2 (\<lambda>a b. (a = []) = (b = [])) (linesOf old) (linesOf new)"
      by (simp add: block_paired_def)
    show ?thesis
      unfolding Modified emitPart_Modified_closed
      by (simp add: content_texts_append content_texts_lines modified_texts [OF wd pr]
            part_lines_simps)
  next
    case (Part c)
    show ?thesis
    proof (cases "added c")
      case True
      then show ?thesis
        unfolding Part
        by (simp add: emitPart_added_closed content_texts_append content_texts_placeholders
              content_texts_whole_lines part_lines_simps)
    next
      case False
      note na = this
      show ?thesis
      proof (cases "removed c")
        case True
        with na show ?thesis
          unfolding Part
          by (simp add: emitPart_removed_closed content_texts_append content_texts_placeholders
                content_texts_whole_lines part_lines_simps)
      next
        case False
        with na show ?thesis
          unfolding Part
          by (simp add: emitPart_unchanged_closed content_texts_append
                content_texts_whole_lines part_lines_simps)
      qed
    qed
  qed
  then show "content_texts (file1Html (emitPart wd st p)) =
           content_texts (file1Html st) @ part_old_lines p"
    and "content_texts (file2Html (emitPart wd st p)) =
           content_texts (file2Html st) @ part_new_lines p"
    by simp_all
qed

lemma foldl_emitPart_texts:
  assumes wd: "\<forall>a b. a \<noteq> [] \<and> b \<noteq> [] \<longrightarrow> diff_contract (wd a b) a b"
  shows "list_all block_paired ps \<Longrightarrow>
         content_texts (file1Html (foldl (emitPart wd) st ps)) =
           content_texts (file1Html st) @ concat (map part_old_lines ps) \<and>
         content_texts (file2Html (foldl (emitPart wd) st ps)) =
           content_texts (file2Html st) @ concat (map part_new_lines ps)"
proof (induction ps arbitrary: st)
  case Nil
  show ?case by simp
next
  case (Cons p ps)
  then have "block_paired p" and "list_all block_paired ps" by simp_all
  with Cons.IH [of "emitPart wd st p"] emitPart_texts [OF wd, of p st]
  show ?case by simp
qed

lemma greedyPass_lines:
  "list_all well_tagged ops \<Longrightarrow>
   concat (map part_old_lines (greedyPass ops)) = concat (map linesOf (old_values ops)) \<and>
   concat (map part_new_lines (greedyPass ops)) = concat (map linesOf (new_values ops))"
proof (induction ops rule: greedyPass.induct)
  case 1
  show ?case by (simp add: old_values_def new_values_def)
next
  case (2 c)
  then show ?case
    by (auto simp: old_values_def new_values_def part_lines_simps
          well_tagged_def)
next
  case (3 c d ops)
  show ?case
  proof (cases "removed c \<and> added d")
    case True
    with 3 show ?thesis
      by (auto simp: old_values_def new_values_def part_lines_simps
            well_tagged_def)
  next
    case False
    with 3 have ih:
      "concat (map part_old_lines (greedyPass (d # ops))) = concat (map linesOf (old_values (d # ops)))"
      "concat (map part_new_lines (greedyPass (d # ops))) = concat (map linesOf (new_values (d # ops)))"
      by simp_all
    have wt: "well_tagged c" using 3(3) by simp
    have g: "greedyPass (c # d # ops) = Part c # greedyPass (d # ops)"
      using False by simp
    have o: "old_values (c # d # ops) = (if added c then [] else [value c]) @ old_values (d # ops)"
      by (simp add: old_values_def)
    have n: "new_values (c # d # ops) = (if removed c then [] else [value c]) @ new_values (d # ops)"
      by (simp add: new_values_def)
    show ?thesis
      unfolding g o n using ih wt
      by (simp add: part_lines_simps well_tagged_def)
  qed
qed

lemma unlines_concat_linesOf:
  "concat (map (\<lambda>l. l @ [nl]) (concat (map linesOf vs))) = concat (map terminated vs)"
  by (induction vs) (simp_all add: linesOf_terminated)

lemma alignRows_texts:
  assumes wd: "\<forall>a b. a \<noteq> [] \<and> b \<noteq> [] \<longrightarrow> diff_contract (wd a b) a b"
    and tagged: "list_all well_tagged ops"
    and paired: "list_all block_paired (findModifiedBlocks ops)"
  shows "content_texts (file1Html (alignRows wd ops)) = concat (map linesOf (old_values ops))"
    and "content_texts (file2Html (alignRows wd ops)) = concat (map linesOf (new_values ops))"
  using foldl_emitPart_texts [OF wd paired, of initialState] greedyPass_lines [OF tagged]
  by (simp_all add: alignRows_def findModifiedBlocks_eq_greedyPass initialState_def content_texts_def)

lemma alignRows_reconstruction:
  assumes wd: "\<forall>a b. a \<noteq> [] \<and> b \<noteq> [] \<longrightarrow> diff_contract (wd a b) a b"
    and contract: "diff_contract ops d1 d2"
    and gran: "line_granular (old_values ops)" "line_granular (new_values ops)"
    and paired: "list_all block_paired (findModifiedBlocks ops)"
  shows "join_nl (content_texts (file1Html (alignRows wd ops))) = chomp d1"
    and "join_nl (content_texts (file2Html (alignRows wd ops))) = chomp d2"
proof -
  have tagged: "list_all well_tagged ops"
    and d1: "concat (old_values ops) = d1" and d2: "concat (new_values ops) = d2"
    using contract by (simp_all add: diff_contract_def old_side_def new_side_def)
  have "concat (map (\<lambda>l. l @ [nl]) (content_texts (file1Html (alignRows wd ops)))) = terminated d1"
    unfolding alignRows_texts [OF wd tagged paired] unlines_concat_linesOf
      terminated_concat [OF gran(1)] d1 ..
  then show "join_nl (content_texts (file1Html (alignRows wd ops))) = chomp d1"
    by (rule join_chomp)
  have "concat (map (\<lambda>l. l @ [nl]) (content_texts (file2Html (alignRows wd ops)))) = terminated d2"
    unfolding alignRows_texts [OF wd tagged paired] unlines_concat_linesOf
      terminated_concat [OF gran(2)] d2 ..
  then show "join_nl (content_texts (file2Html (alignRows wd ops))) = chomp d2"
    by (rule join_chomp)
qed

text \<open>
  C1, as the code has it. Let the word diff meet its contract on non-empty lines, let the
  line diff meet its contract on the two normalized documents with every value of a side
  but that side's last ending in a line feed, and let every modified block have equally
  many old and new lines, at each index both empty or both non-empty. Then the texts of
  the content rows of the left column, joined by line feeds, are normalized document 1
  without its final line feed, if it has one, and those of the right column are normalized
  document 2 without its final line feed.
\<close>

theorem reconstruction_up_to_final_newline:
  assumes "\<forall>a b. a \<noteq> [] \<and> b \<noteq> [] \<longrightarrow> diff_contract (wd a b) a b"
    and "diff_contract (dl (normalize ws ic f1) (normalize ws ic f2))
           (normalize ws ic f1) (normalize ws ic f2)"
    and "line_granular (old_values (dl (normalize ws ic f1) (normalize ws ic f2)))"
    and "line_granular (new_values (dl (normalize ws ic f1) (normalize ws ic f2)))"
    and "list_all block_paired (findModifiedBlocks (dl (normalize ws ic f1) (normalize ws ic f2)))"
  shows "join_nl (content_texts (file1Html (getHtmlForWebview dl wd ws ic f1 f2))) =
           chomp (normalize ws ic f1) \<and>
         join_nl (content_texts (file2Html (getHtmlForWebview dl wd ws ic f1 f2))) =
           chomp (normalize ws ic f2)"
  unfolding getHtmlForWebview_def
  using alignRows_reconstruction [OF assms] by simp

theorem reconstruction_up_to_final_newline_witness:
  "join_nl (content_texts (file1Html (getHtmlForWebview
      (fixedDiff [\<lparr>value = ''a\<newline>'', added = False, removed = False\<rparr>,
                  \<lparr>value = ''x y\<newline>'', added = False, removed = True\<rparr>,
                  \<lparr>value = ''x z\<newline>'', added = True, removed = False\<rparr>,
                  \<lparr>value = ''b\<newline>'', added = False, removed = False\<rparr>])
      wholeLineDiff False True ''A\<newline>x y\<newline>B\<newline>'' ''a\<newline>X z\<newline>b\<newline>''))) =
     ''a\<newline>x y\<newline>b'' \<and>
   join_nl (content_texts (file2Html (getHtmlForWebview
      (fixedDiff [\<lparr>value = ''a\<newline>'', added = False, removed = False\<rparr>,
                  \<lparr>value = ''x y\<newline>'', added = False, removed = True\<rparr>,
                  \<lparr>value = ''x z\<newline>'', added = True, removed = False\<rparr>,
                  \<lparr>value = ''b\<newline>'', added = False, removed = False\<rparr>])
      wholeLineDiff False True ''A\<newline>x y\<newline>B\<newline>'' ''a\<newline>X z\<newline>b\<newline>''))) =
     ''a\<newline>x z\<newline>b''"
proof -
  let ?ops = "[\<lparr>value = ''a\<newline>'', added = False, removed = False\<rparr>,
                  \<lparr>value = ''x y\<newline>'', added = False, removed = True\<rparr>,
                  \<lparr>value = ''x z\<newline>'', added = True, removed = False\<rparr>,
                  \<lparr>value = ''b\<newline>'', added = False, removed = False\<rparr>]"
  have n1: "normalize False True ''A\<newline>x y\<newline>B\<newline>'' = ''a\<newline>x y\<newline>b\<newline>''"
    by code_simp
  have n2: "normalize False True ''a\<newline>X z\<newline>b\<newline>'' = ''a\<newline>x z\<newline>b\<newline>''"
    by code_simp
  have wd: "\<forall>a b. a \<noteq> [] \<and> b \<noteq> [] \<longrightarrow> diff_contract (wholeLineDiff a b) a b"
    by (simp add: wholeLineDiff_def diff_contract_def well_tagged_def old_side_def
          old_values_def new_side_def new_values_def)
  have c: "diff_contract (fixedDiff ?ops (normalize False True ''A\<newline>x y\<newline>B\<newline>'')
              (normalize False True ''a\<newline>X z\<newline>b\<newline>''))
           (normalize False True ''A\<newline>x y\<newline>B\<newline>'') (normalize False True ''a\<newline>X z\<newline>b\<newline>'')"
    unfolding n1 n2
    by (simp add: fixedDiff_def diff_contract_def well_tagged_def old_side_def
          old_values_def new_side_def new_values_def)
  have g1: "line_granular (old_values (fixedDiff ?ops (normalize False True ''A\<newline>x y\<newline>B\<newline>'')
              (normalize False True ''a\<newline>X z\<newline>b\<newline>'')))"
    by (simp add: fixedDiff_def old_values_def nl_def)
  have g2: "line_granular (new_values (fixedDiff ?ops (normalize False True ''A\<newline>x y\<newline>B\<newline>'')
              (normalize False True ''a\<newline>X z\<newline>b\<newline>'')))"
    by (simp add: fixedDiff_def new_values_def nl_def)
  have p: "list_all block_paired (findModifiedBlocks (fixedDiff ?ops (normalize False True ''A\<newline>x y\<newline>B\<newline>'')
              (normalize False True ''a\<newline>X z\<newline>b\<newline>'')))"
    by (simp add: fixedDiff_def findModifiedBlocks_eq_greedyPass block_paired_def linesOf_def
          popEmpty_def nl_def)
  show ?thesis
    using reconstruction_up_to_final_newline
      [where wd = wholeLineDiff and dl = "fixedDiff ?ops" and ws = False and ic = True
         and ?f1.0 = "''A\<newline>x y\<newline>B\<newline>''" and ?f2.0 = "''a\<newline>X z\<newline>b\<newline>''",
       OF wd c g1 g2 p]
    unfolding n1 n2 by (simp add: chomp_def nl_def)
qed

text \<open>
  C1 as stated fails on two inputs that meet the contract. The final line feed of a
  document is not in the rows: comparing the one-line document a (with its line feed) with
  itself gives the single row a. And a modified block with one old line x and two new lines
  y and z shows z in the second row of the left column, so the left texts spell x and z
  where document 1 is x.
\<close>

theorem reconstruction_counterexample:
  "diff_contract [\<lparr>value = ''a\<newline>'', added = False, removed = False\<rparr>] ''a\<newline>'' ''a\<newline>'' \<and>
   join_nl (content_texts (file1Html (getHtmlForWebview
      (fixedDiff [\<lparr>value = ''a\<newline>'', added = False, removed = False\<rparr>])
      wholeLineDiff False False ''a\<newline>'' ''a\<newline>''))) \<noteq> normalize False False ''a\<newline>'' \<and>
   diff_contract [\<lparr>value = ''x'', added = False, removed = True\<rparr>,
                  \<lparr>value = ''y\<newline>z'', added = True, removed = False\<rparr>] ''x'' ''y\<newline>z'' \<and>
   diff_contract (wholeLineDiff ''x'' ''y'') ''x'' ''y'' \<and>
   join_nl (content_texts (file1Html (getHtmlForWebview
      (fixedDiff [\<lparr>value = ''x'', added = False, removed = True\<rparr>,
                  \<lparr>value = ''y\<newline>z'', added = True, removed = False\<rparr>])
      wholeLineDiff False False ''x'' ''y\<newline>z''))) \<noteq> normalize False False ''x''"
  by code_simp

end
